theory Spec2Isabelle
  imports Complex_Main "HOL-Library.Word" "HOL-Library.Multiset"
begin

section \<open>JavaScript strings\<close>

text \<open>
  A JavaScript string is a finite sequence of 16-bit code units; \<open>length\<close>, \<open>slice\<close>,
  \<open>startsWith\<close>, \<open>endsWith\<close>, \<open>includes\<close>, the relational operators and the regular
  expression engine (without the \<open>u\<close> flag) all work on code units. \<open>js\<close> writes a
  literal of Basic Latin characters as such a sequence.
\<close>

type_synonym jsstring = "16 word list"

definition js :: "string \<Rightarrow> jsstring" where
  "js s = map of_char s"

abbreviation asterisk :: "16 word" where
  "asterisk \<equiv> 0x2A"

abbreviation lbracket :: "16 word" where
  "lbracket \<equiv> 0x5B"

abbreviation rbracket :: "16 word" where
  "rbracket \<equiv> 0x5D"

text \<open>\<open>s.startsWith(p)\<close> and \<open>s.endsWith(p)\<close>.\<close>

definition startsWith :: "jsstring \<Rightarrow> jsstring \<Rightarrow> bool" where
  "startsWith s p = (take (length p) s = p)"

definition endsWith :: "jsstring \<Rightarrow> jsstring \<Rightarrow> bool" where
  "endsWith s p = (length p \<le> length s \<and> drop (length s - length p) s = p)"

text \<open>
  \<open>s.slice(b, e)\<close>: a negative index counts from the end, both indices are clamped to
  \<open>0 .. length\<close>, and the result is empty when the end is not after the start
  (\<open>slice_str\<close>, as the word library has a \<open>slice\<close> of its own).
\<close>

definition slice_str :: "jsstring \<Rightarrow> int \<Rightarrow> int \<Rightarrow> jsstring" where
  "slice_str s b e =
     (let len = int (length s);
          lo = (if b < 0 then max (len + b) 0 else min b len);
          hi = (if e < 0 then max (len + e) 0 else min e len)
      in take (nat (hi - lo)) (drop (nat lo) s))"

section \<open>The markup parser\<close>

text \<open>
  \<^verbatim>\<open>const parts = text.split(/(\*\*.*?\*\*|\[.*?\])/g);\<close>

  The dot of a regular expression without the \<open>s\<close> flag matches every code unit but
  the four line terminators.
\<close>

definition isLineTerminator :: "16 word \<Rightarrow> bool" where
  "isLineTerminator c = (c = 0x000A \<or> c = 0x000D \<or> c = 0x2028 \<or> c = 0x2029)"

text \<open>
  \<open>.*?\*\*\<close> at the head of a text: the lazy star first tries to go on with no code
  unit consumed, and only when the two asterisks are not there does the dot take one
  more code unit. The result is the text consumed, two asterisks included.
\<close>

fun lazyUntilAsterisks :: "jsstring \<Rightarrow> jsstring option" where
  "lazyUntilAsterisks (a # b # r) =
     (if a = asterisk \<and> b = asterisk then Some [a, b]
      else if isLineTerminator a then None
      else map_option ((#) a) (lazyUntilAsterisks (b # r)))"
| "lazyUntilAsterisks r = None"

text \<open>\<open>.*?\]\<close> at the head of a text.\<close>

fun lazyUntilBracket :: "jsstring \<Rightarrow> jsstring option" where
  "lazyUntilBracket [] = None"
| "lazyUntilBracket (a # r) =
     (if a = rbracket then Some [a]
      else if isLineTerminator a then None
      else map_option ((#) a) (lazyUntilBracket r))"

text \<open>The two alternatives, and the alternation, which tries them from left to right.\<close>

definition matchEmphasis :: "jsstring \<Rightarrow> jsstring option" where
  "matchEmphasis s =
     (case s of
        a # b # r \<Rightarrow>
          if a = asterisk \<and> b = asterisk
          then map_option (\<lambda>m. a # b # m) (lazyUntilAsterisks r) else None
      | _ \<Rightarrow> None)"

definition matchBookmark :: "jsstring \<Rightarrow> jsstring option" where
  "matchBookmark s =
     (case s of
        a # r \<Rightarrow> if a = lbracket then map_option ((#) a) (lazyUntilBracket r) else None
      | [] \<Rightarrow> None)"

definition matchToken :: "jsstring \<Rightarrow> jsstring option" where
  "matchToken s = (case matchEmphasis s of Some m \<Rightarrow> Some m | None \<Rightarrow> matchBookmark s)"

text \<open>
  \<open>String.prototype.split\<close> with a regular expression: with \<open>p\<close> the end of the last
  match and \<open>q\<close> the position tried, the expression is matched at \<open>q\<close> only (sticky);
  without a match \<open>q\<close> moves on by one code unit, with a match the text between \<open>p\<close>
  and \<open>q\<close> is pushed, then the capture group (here the whole match), and both move to
  the end of the match. At the end the text after \<open>p\<close> is pushed. Below, the first
  argument is the text between \<open>p\<close> and \<open>q\<close> and the second the text from \<open>q\<close> on.
  The expression matches no empty string, so the empty text gives one empty part.
\<close>

function split :: "jsstring \<Rightarrow> jsstring \<Rightarrow> jsstring list" where
  "split acc [] = [acc]"
| "split acc (c # cs) =
     (case matchToken (c # cs) of
        Some m \<Rightarrow> acc # m # split [] (drop (length m) (c # cs))
      | None \<Rightarrow> split (acc @ [c]) cs)"
  by pat_completeness auto
termination
proof (relation "measure (\<lambda>(acc, s). length s)")
  show "wf (measure (\<lambda>(acc, s). length s))"
    by simp
next
  fix acc :: jsstring and c cs m
  assume "matchToken (c # cs) = Some m"
  then have "m \<noteq> []"
    by (auto simp: matchToken_def matchEmphasis_def matchBookmark_def
        split: option.splits list.splits if_splits)
  then show "(([], drop (length m) (c # cs)), acc, c # cs) \<in> measure (\<lambda>(acc, s). length s)"
    by simp
next
  fix acc :: jsstring and c cs
  show "((acc @ [c], cs), acc, c # cs) \<in> measure (\<lambda>(acc, s). length s)"
    by simp
qed

text \<open>
  The rendered elements: \<open>Emphasis\<close> is the \<open><strong>\<close> element, \<open>Bookmark\<close> the
  \<open><span>\<close> that carries a bookmark id, \<open>Plain\<close> the bare \<open><span>\<close>; each holds the text
  it is built from (\<open>part.slice(2, -2)\<close>, \<open>part.slice(1, -1)\<close>, \<open>part\<close>). The React key
  of an element is its index in the list.
\<close>

datatype Span = Emphasis jsstring | Bookmark jsstring | Plain jsstring

definition renderPart :: "jsstring \<Rightarrow> Span" where
  "renderPart part =
     (if startsWith part [asterisk, asterisk] \<and> endsWith part [asterisk, asterisk]
      then Emphasis (slice_str part 2 (- 2))
      else if startsWith part [lbracket] \<and> endsWith part [rbracket]
      then Bookmark (slice_str part 1 (- 1))
      else Plain part)"

definition parseText :: "jsstring \<Rightarrow> Span list" where
  "parseText t = map renderPart (split [] t)"

text \<open>
  The id of a bookmark element,
  \<^verbatim>\<open>`bookmark-${bookmarkName.replace(/\s+/g, '-')}`\<close>: every maximal run of code units of
  the class \<open>\s\<close> (white space and line terminators) becomes one hyphen.
\<close>

definition isWhiteSpace :: "16 word \<Rightarrow> bool" where
  "isWhiteSpace c =
     (c = 0x0009 \<or> c = 0x000B \<or> c = 0x000C \<or> c = 0x0020 \<or> c = 0x00A0 \<or> c = 0x1680
      \<or> (0x2000 \<le> c \<and> c \<le> 0x200A) \<or> c = 0x202F \<or> c = 0x205F \<or> c = 0x3000
      \<or> c = 0xFEFF \<or> isLineTerminator c)"

function replaceWhiteSpace :: "jsstring \<Rightarrow> jsstring" where
  "replaceWhiteSpace [] = []"
| "replaceWhiteSpace (c # cs) =
     (if isWhiteSpace c then 0x2D # replaceWhiteSpace (dropWhile isWhiteSpace cs)
      else c # replaceWhiteSpace cs)"
  by pat_completeness auto
termination
  by (relation "measure length") (auto simp: length_dropWhile_le less_Suc_eq_le)

definition bookmarkId :: "jsstring \<Rightarrow> jsstring" where
  "bookmarkId bookmarkName = js ''bookmark-'' @ replaceWhiteSpace bookmarkName"

text \<open>
  The text a span stands for, with the delimiters the parser stripped put back: the
  inverse the specification asks for.
\<close>

fun rawText :: "Span \<Rightarrow> jsstring" where
  "rawText (Emphasis s) = [asterisk, asterisk] @ s @ [asterisk, asterisk]"
| "rawText (Bookmark s) = [lbracket] @ s @ [rbracket]"
| "rawText (Plain s) = s"

definition rejoin :: "Span list \<Rightarrow> jsstring" where
  "rejoin spans = concat (map rawText spans)"

section \<open>Properties of the markup parser\<close>

subsection \<open>Splitting loses nothing\<close>

lemma lazyUntilAsterisks_prefix:
  "lazyUntilAsterisks r = Some m \<Longrightarrow> \<exists>t. r = m @ t"
  by (induction r arbitrary: m rule: lazyUntilAsterisks.induct) (auto split: if_splits)

lemma lazyUntilBracket_prefix:
  "lazyUntilBracket r = Some m \<Longrightarrow> \<exists>t. r = m @ t"
  by (induction r arbitrary: m) (auto split: if_splits)

lemma matchToken_prefix:
  assumes "matchToken s = Some m"
  shows "\<exists>t. s = m @ t"
  using assms
  by (auto simp: matchToken_def matchEmphasis_def matchBookmark_def
      split: option.splits list.splits if_splits
      dest: lazyUntilAsterisks_prefix lazyUntilBracket_prefix)

lemma matchToken_take_drop:
  "matchToken s = Some m \<Longrightarrow> m @ drop (length m) s = s"
  using matchToken_prefix by fastforce

lemma concat_split: "concat (split acc s) = acc @ s"
proof (induction acc s rule: split.induct)
  case (1 acc)
  then show ?case by simp
next
  case (2 acc c cs)
  show ?case
  proof (cases "matchToken (c # cs)")
    case None
    with 2 show ?thesis by simp
  next
    case (Some m)
    with 2 matchToken_take_drop[OF Some] show ?thesis by simp
  qed
qed

subsection \<open>Stripping and re-adding the delimiters of one part\<close>

lemma slice_strip:
  assumes "a + b \<le> length p" "0 < b"
  shows "take a p @ slice_str p (int a) (- int b) @ drop (length p - b) p = p"
proof -
  have s: "slice_str p (int a) (- int b) = take (length p - b - a) (drop a p)"
    using assms by (simp add: slice_str_def Let_def nat_diff_distrib' min_def max_def)
  have "drop (length p - b) p = drop (length p - b - a) (drop a p)"
    using assms by simp
  then show ?thesis
    unfolding s by (metis append_take_drop_id)
qed

text \<open>
  A part shorter than four code units passes the emphasis test only when its leading
  and trailing asterisk pairs overlap.
\<close>

lemma short_emphasis:
  assumes "startsWith part [asterisk, asterisk]" "endsWith part [asterisk, asterisk]"
    and "length part < 4"
  shows "part = [asterisk, asterisk] \<or> part = [asterisk, asterisk, asterisk]"
proof -
  from assms(2) have "2 \<le> length part" by (simp add: endsWith_def)
  with assms(3) consider "length part = 2" | "length part = 3" by linarith
  then show ?thesis
  proof cases
    case 1
    then obtain x y where "part = [x, y]"
      by (metis (no_types, opaque_lifting) One_nat_def Suc_1 length_0_conv length_Suc_conv)
    with assms(1) show ?thesis by (simp add: startsWith_def)
  next
    case 2
    then obtain x y z where "part = [x, y, z]"
      by (metis (no_types, opaque_lifting) length_0_conv length_Suc_conv numeral_3_eq_3)
    with assms(1,2) show ?thesis by (simp add: startsWith_def endsWith_def)
  qed
qed

lemma rawText_renderPart:
  assumes "part \<noteq> [asterisk, asterisk]" "part \<noteq> [asterisk, asterisk, asterisk]"
  shows "rawText (renderPart part) = part"
proof (cases "startsWith part [asterisk, asterisk] \<and> endsWith part [asterisk, asterisk]")
  case True
  with assms short_emphasis have "4 \<le> length part" by fastforce
  then have eq: "take 2 part @ slice_str part 2 (- 2) @ drop (length part - 2) part = part"
    using slice_strip[of 2 2 part] by simp
  have t: "take 2 part = [asterisk, asterisk]"
    using True by (simp add: startsWith_def numeral_2_eq_2)
  have d: "drop (length part - 2) part = [asterisk, asterisk]"
    using True by (simp add: endsWith_def numeral_2_eq_2)
  have "renderPart part = Emphasis (slice_str part 2 (- 2))"
    using True by (simp add: renderPart_def)
  then show ?thesis
    using eq unfolding t d by simp
next
  case notE: False
  show ?thesis
  proof (cases "startsWith part [lbracket] \<and> endsWith part [rbracket]")
    case True
    then have "length part \<noteq> 0" "length part \<noteq> 1"
      by (auto simp: startsWith_def endsWith_def length_Suc_conv)
    then have "2 \<le> length part" by arith
    then have eq: "take 1 part @ slice_str part 1 (- 1) @ drop (length part - 1) part = part"
      using slice_strip[of 1 1 part] by simp
    have t: "take 1 part = [lbracket]"
      using True by (simp add: startsWith_def)
    have d: "drop (length part - 1) part = [rbracket]"
      using True by (simp add: endsWith_def)
    have "renderPart part = Bookmark (slice_str part 1 (- 1))"
      using True notE by (simp add: renderPart_def)
    then show ?thesis
      using eq unfolding t d by simp
  next
    case False
    with notE show ?thesis by (auto simp: renderPart_def)
  qed
qed

text \<open>
  Re-joining reproduces every text none of whose parts is a bare \<open>**\<close> or \<open>***\<close>.
\<close>

lemma rejoin_parseText:
  assumes "\<forall>p \<in> set (split [] t).
             p \<noteq> [asterisk, asterisk] \<and> p \<noteq> [asterisk, asterisk, asterisk]"
  shows "rejoin (parseText t) = t"
proof -
  have "map rawText (map renderPart (split [] t)) = split [] t"
    using assms by (simp add: map_idI rawText_renderPart)
  then show ?thesis
    by (simp add: rejoin_def parseText_def concat_split)
qed

text \<open>
  Claim C1. For every input text, concatenating the raw text of the parsed spans, with
  the stripped delimiters re-added, reproduces the input. The parser breaks this on the
  text \<open>**\<close>: no token matches, the single part is the whole text, it starts with and
  ends with two asterisks, so it is rendered as an emphasis span, and \<open>slice(2, -2)\<close>
  of a text of length two is empty. Re-joined, the span gives four asterisks.
\<close>

theorem parseText_bare_asterisks:
  "parseText (js ''**'') = [Emphasis []] \<and>
   rejoin (parseText (js ''**'')) = js ''****'' \<and>
   rejoin (parseText (js ''**'')) \<noteq> js ''**''"
  by code_simp

lemma bookmarkId_intro: "bookmarkId (js ''intro'') = js ''bookmark-intro''"
  by code_simp

lemma bookmarkId_white_space: "bookmarkId (js ''part  two'') = js ''bookmark-part-two''"
  by code_simp

text \<open>
  Claim C9. The text \<open>Hello **world** [intro] end\<close> parses to the spans
  plain \<open>Hello \<close>, emphasis \<open>world\<close>, plain \<open> \<close>, bookmark \<open>intro\<close>, plain \<open> end\<close>, in
  this order, the delimiters stripped.
\<close>

theorem parseText_hello_world:
  "parseText (js ''Hello **world** [intro] end'') =
     [Plain (js ''Hello ''), Emphasis (js ''world''), Plain (js '' ''),
      Bookmark (js ''intro''), Plain (js '' end'')]"
  by code_simp

subsection \<open>Tokens and the text between them\<close>

text \<open>
  \<open>noTokenIn pre rest\<close>: in the text \<open>pre @ rest\<close> the expression matches at no position
  of \<open>pre\<close>. Such a \<open>pre\<close> is the text before the first token, or between two tokens,
  or after the last one.
\<close>

fun noTokenIn :: "jsstring \<Rightarrow> jsstring \<Rightarrow> bool" where
  "noTokenIn [] rest = True"
| "noTokenIn (c # cs) rest = (matchToken (c # cs @ rest) = None \<and> noTokenIn cs rest)"

lemma split_noTokenIn:
  "noTokenIn pre rest \<Longrightarrow> split acc (pre @ rest) = split (acc @ pre) rest"
  by (induction pre arbitrary: acc) simp_all

lemma matchToken_nonempty: "matchToken s = Some m \<Longrightarrow> m \<noteq> []"
  by (auto simp: matchToken_def matchEmphasis_def matchBookmark_def
      split: option.splits list.splits if_splits)

lemma split_token:
  assumes "matchToken (m @ rest) = Some m"
  shows "split acc (m @ rest) = acc # m # split [] rest"
proof -
  from assms have "m \<noteq> []" by (rule matchToken_nonempty)
  then obtain c cs where m: "m @ rest = c # cs"
    by (cases m) simp_all
  have "split acc (c # cs) = acc # m # split [] (drop (length m) (c # cs))"
    using assms unfolding m by simp
  then show ?thesis
    unfolding m[symmetric] by simp
qed

lemma split_plain_token:
  assumes "noTokenIn pre (m @ rest)" "matchToken (m @ rest) = Some m"
  shows "split [] (pre @ m @ rest) = pre # m # split [] rest"
  using split_noTokenIn[OF assms(1), of "[]"] split_token[OF assms(2), of pre] by simp

lemma split_plain:
  assumes "noTokenIn t []"
  shows "split [] t = [t]"
  using split_noTokenIn[OF assms, of "[]"] by simp

text \<open>Every text is free of tokens or has a first token.\<close>

lemma first_token:
  "noTokenIn t [] \<or>
   (\<exists>pre m rest. t = pre @ m @ rest \<and> noTokenIn pre (m @ rest) \<and> matchToken (m @ rest) = Some m)"
proof (induction t)
  case Nil
  then show ?case by simp
next
  case (Cons c cs)
  show ?case
  proof (cases "matchToken (c # cs)")
    case (Some m)
    then have "c # cs = [] @ m @ drop (length m) (c # cs)"
      by (simp add: matchToken_take_drop)
    moreover have "matchToken (m @ drop (length m) (c # cs)) = Some m"
      using Some by (simp add: matchToken_take_drop)
    ultimately show ?thesis
      by (metis noTokenIn.simps(1))
  next
    case None
    from Cons.IH show ?thesis
    proof
      assume "noTokenIn cs []"
      with None show ?thesis by simp
    next
      assume "\<exists>pre m rest. cs = pre @ m @ rest \<and> noTokenIn pre (m @ rest)
          \<and> matchToken (m @ rest) = Some m"
      then obtain pre m rest where d: "cs = pre @ m @ rest" "noTokenIn pre (m @ rest)"
          "matchToken (m @ rest) = Some m"
        by blast
      with None have "c # cs = (c # pre) @ m @ rest" "noTokenIn (c # pre) (m @ rest)"
        by simp_all
      with d(3) show ?thesis by blast
    qed
  qed
qed

text \<open>A token is rendered as a markup span, its delimiters stripped.\<close>

lemma lazyUntilAsterisks_shape:
  "lazyUntilAsterisks r = Some m \<Longrightarrow> \<exists>x. m = x @ [asterisk, asterisk]"
proof (induction r arbitrary: m rule: lazyUntilAsterisks.induct)
  case (1 a b r)
  show ?case
  proof (cases "a = asterisk \<and> b = asterisk")
    case True
    with 1(2) have "m = [] @ [asterisk, asterisk]" by auto
    then show ?thesis by blast
  next
    case False
    with 1(2) obtain l where l: "lazyUntilAsterisks (b # r) = Some l" "m = a # l"
      "\<not> isLineTerminator a"
      by (auto split: if_splits)
    with 1(1)[OF False l(3) l(1)] obtain x where "l = x @ [asterisk, asterisk]"
      by blast
    with l(2) have "m = (a # x) @ [asterisk, asterisk]" by simp
    then show ?thesis by blast
  qed
qed simp_all

lemma lazyUntilBracket_shape:
  "lazyUntilBracket r = Some m \<Longrightarrow> \<exists>x. m = x @ [rbracket]"
proof (induction r arbitrary: m)
  case Nil
  then show ?case by simp
next
  case (Cons a r)
  show ?case
  proof (cases "a = rbracket")
    case True
    with Cons.prems have "m = [] @ [rbracket]" by simp
    then show ?thesis by blast
  next
    case False
    with Cons.prems obtain l where l: "lazyUntilBracket r = Some l" "m = a # l"
      by (auto split: if_splits)
    with Cons.IH obtain x where "l = x @ [rbracket]"
      by blast
    with l(2) have "m = (a # x) @ [rbracket]" by simp
    then show ?thesis by blast
  qed
qed

lemma renderPart_emphasis:
  "renderPart ([asterisk, asterisk] @ x @ [asterisk, asterisk]) = Emphasis x"
  by (simp add: renderPart_def startsWith_def endsWith_def slice_str_def Let_def)

lemma renderPart_bookmark:
  "renderPart ([lbracket] @ x @ [rbracket]) = Bookmark x"
  by (simp add: renderPart_def startsWith_def endsWith_def slice_str_def Let_def)

lemma token_span:
  assumes "matchToken s = Some m"
  shows "(\<exists>x. m = [asterisk, asterisk] @ x @ [asterisk, asterisk] \<and> renderPart m = Emphasis x) \<or>
         (\<exists>x. m = [lbracket] @ x @ [rbracket] \<and> renderPart m = Bookmark x)"
proof (cases "matchEmphasis s")
  case (Some e)
  with assms have me: "matchEmphasis s = Some m" by (simp add: matchToken_def)
  then obtain r l where "lazyUntilAsterisks r = Some l" "m = asterisk # asterisk # l"
    by (auto simp: matchEmphasis_def split: list.splits if_splits)
  then obtain x where "m = [asterisk, asterisk] @ x @ [asterisk, asterisk]"
    using lazyUntilAsterisks_shape by fastforce
  then show ?thesis
    using renderPart_emphasis by blast
next
  case None
  with assms have "matchBookmark s = Some m" by (simp add: matchToken_def)
  then obtain r l where "lazyUntilBracket r = Some l" "m = lbracket # l"
    by (auto simp: matchBookmark_def split: list.splits if_splits)
  then obtain x where "m = [lbracket] @ x @ [rbracket]"
    using lazyUntilBracket_shape by fastforce
  then show ?thesis
    using renderPart_bookmark by blast
qed

text \<open>
  Claim C10. The parser emits empty plain spans at delimiter boundaries and omits
  none. The empty text gives one empty plain span, and a text without a token one span
  of the whole text. A text with a first token \<open>m\<close>, after a text \<open>pre\<close> without a
  token and before \<open>rest\<close>, gives the span of \<open>pre\<close>, the span of \<open>m\<close>, a markup span,
  and the spans of \<open>rest\<close>, and every text is of one of these two kinds: so the spans
  of every text are a span for the text before, between and after the tokens, empty or
  not, alternating with the markup spans. In particular a text that begins with a
  token gives an empty plain span first; a text that ends with a token gives an empty
  plain span last; and two adjacent tokens have an empty plain span between them.
\<close>

theorem parseText_empty_plain_spans:
  "parseText [] = [Plain []] \<and>
   (noTokenIn t [] \<longrightarrow> parseText t = [renderPart t]) \<and>
   (noTokenIn pre (m @ rest) \<and> matchToken (m @ rest) = Some m \<longrightarrow>
      parseText (pre @ m @ rest) = renderPart pre # renderPart m # parseText rest \<and>
      ((\<exists>x. m = [asterisk, asterisk] @ x @ [asterisk, asterisk] \<and> renderPart m = Emphasis x) \<or>
       (\<exists>x. m = [lbracket] @ x @ [rbracket] \<and> renderPart m = Bookmark x))) \<and>
   (noTokenIn t [] \<or>
    (\<exists>pre m rest. t = pre @ m @ rest \<and> noTokenIn pre (m @ rest)
       \<and> matchToken (m @ rest) = Some m)) \<and>
   (matchToken t = Some m \<longrightarrow>
      parseText t = Plain [] # renderPart m # parseText (drop (length m) t)) \<and>
   (noTokenIn pre m \<and> matchToken m = Some m \<longrightarrow>
      parseText (pre @ m) = [renderPart pre, renderPart m, Plain []]) \<and>
   (noTokenIn pre (m @ m' @ rest) \<and> matchToken (m @ m' @ rest) = Some m
      \<and> matchToken (m' @ rest) = Some m' \<longrightarrow>
      parseText (pre @ m @ m' @ rest)
        = renderPart pre # renderPart m # Plain [] # renderPart m' # parseText rest)"
proof (intro conjI impI)
  show e: "parseText [] = [Plain []]"
    by (simp add: parseText_def renderPart_def startsWith_def endsWith_def)
  show "parseText t = [renderPart t]" if "noTokenIn t []"
    using that by (simp add: parseText_def split_plain)
  show "noTokenIn t [] \<or>
    (\<exists>pre m rest. t = pre @ m @ rest \<and> noTokenIn pre (m @ rest)
       \<and> matchToken (m @ rest) = Some m)"
    by (rule first_token)
  show "parseText t = Plain [] # renderPart m # parseText (drop (length m) t)"
    if "matchToken t = Some m"
  proof -
    from that have "matchToken (m @ drop (length m) t) = Some m"
      by (simp add: matchToken_take_drop)
    from split_token[OF this, of "[]"] that
    have "split [] t = [] # m # split [] (drop (length m) t)"
      by (simp add: matchToken_take_drop)
    then show ?thesis
      by (simp add: parseText_def renderPart_def startsWith_def endsWith_def)
  qed
  show "parseText (pre @ m) = [renderPart pre, renderPart m, Plain []]"
    if "noTokenIn pre m \<and> matchToken m = Some m"
  proof -
    from that have "noTokenIn pre (m @ [])" "matchToken (m @ []) = Some m"
      by simp_all
    from split_plain_token[OF this] e show ?thesis
      by (simp add: parseText_def)
  qed
  show "parseText (pre @ m @ m' @ rest)
      = renderPart pre # renderPart m # Plain [] # renderPart m' # parseText rest"
    if a: "noTokenIn pre (m @ m' @ rest) \<and> matchToken (m @ m' @ rest) = Some m
      \<and> matchToken (m' @ rest) = Some m'"
  proof -
    from a have "split [] (pre @ m @ m' @ rest) = pre # m # split [] (m' @ rest)"
      by (intro split_plain_token) simp_all
    moreover from a have "split [] (m' @ rest) = [] # m' # split [] rest"
      by (intro split_token) simp
    ultimately show ?thesis
      by (simp add: parseText_def renderPart_def startsWith_def endsWith_def)
  qed
next
  assume a: "noTokenIn pre (m @ rest) \<and> matchToken (m @ rest) = Some m"
  then show "parseText (pre @ m @ rest) = renderPart pre # renderPart m # parseText rest"
    by (simp add: parseText_def split_plain_token)
  from a show "(\<exists>x. m = [asterisk, asterisk] @ x @ [asterisk, asterisk]
        \<and> renderPart m = Emphasis x) \<or>
       (\<exists>x. m = [lbracket] @ x @ [rbracket] \<and> renderPart m = Bookmark x)"
    using token_span by blast
qed

theorem parseText_empty_plain_spans_witness:
  "noTokenIn (js ''x'') (js ''**a**'') \<and>
   matchToken (js ''**a**'') = Some (js ''**a**'') \<and>
   parseText (js ''x**a**'') = [Plain (js ''x''), Emphasis (js ''a''), Plain []] \<and>
   noTokenIn (js ''x'') (js ''**a**'' @ js ''[b]'') \<and>
   matchToken (js ''**a**'' @ js ''[b]'') = Some (js ''**a**'') \<and>
   matchToken (js ''[b]'') = Some (js ''[b]'') \<and>
   parseText (js ''x**a**[b]'')
     = [Plain (js ''x''), Emphasis (js ''a''), Plain [], Bookmark (js ''b''), Plain []] \<and>
   parseText (js ''**a**'') = [Plain [], Emphasis (js ''a''), Plain []] \<and>
   parseText (js ''**a**[b]'')
     = [Plain [], Emphasis (js ''a''), Plain [], Bookmark (js ''b''), Plain []] \<and>
   parseText (js ''[b]'') = [Plain [], Bookmark (js ''b''), Plain []] \<and>
   parseText (js ''x**a**[b]'')
     = Plain (js ''x'') # Emphasis (js ''a'') # parseText (js ''[b]'') \<and>
   noTokenIn (js ''a*b]'') [] \<and>
   parseText (js ''a*b]'') = [Plain (js ''a*b]'')] \<and>
   parseText (js '''') = [Plain []]"
proof -
  have h: "noTokenIn (js ''x'') (js ''**a**'')"
    "matchToken (js ''**a**'') = Some (js ''**a**'')"
    "noTokenIn (js ''x'') (js ''**a**'' @ js ''[b]'')"
    "matchToken (js ''**a**'' @ js ''[b]'') = Some (js ''**a**'')"
    "matchToken (js ''[b]'') = Some (js ''[b]'')"
    "noTokenIn (js ''a*b]'') []"
    "noTokenIn [] (js ''**a**'')"
    "noTokenIn [] (js ''**a**'' @ js ''[b]'')"
    by code_simp+
  have r: "renderPart (js ''x'') = Plain (js ''x'')"
    "renderPart (js ''**a**'') = Emphasis (js ''a'')"
    "renderPart (js ''[b]'') = Bookmark (js ''b'')"
    "renderPart (js ''a*b]'') = Plain (js ''a*b]'')"
    "renderPart [] = Plain []"
    by code_simp+
  have j: "js ''x**a**'' = js ''x'' @ js ''**a**''"
    "js ''x**a**[b]'' = js ''x'' @ js ''**a**'' @ js ''[b]''"
    "js ''**a**[b]'' = js ''**a**'' @ js ''[b]''"
    "js '''' = []"
    by (simp_all add: js_def)
  have ends: "parseText (pre @ m) = [renderPart pre, renderPart m, Plain []]"
    if "noTokenIn pre m" "matchToken m = Some m" for pre m
    using that parseText_empty_plain_spans[where pre = pre and m = m] by blast
  have adjacent: "parseText (pre @ m @ m' @ rest)
      = renderPart pre # renderPart m # Plain [] # renderPart m' # parseText rest"
    if "noTokenIn pre (m @ m' @ rest)" "matchToken (m @ m' @ rest) = Some m"
      "matchToken (m' @ rest) = Some m'" for pre m m' rest
    using that
      parseText_empty_plain_spans[where pre = pre and m = m and m' = m' and rest = rest]
    by blast
  have plain: "parseText t = [renderPart t]" if "noTokenIn t []" for t
    using that parseText_empty_plain_spans[where t = t] by blast
  have 0: "parseText [] = [Plain []]"
    using parseText_empty_plain_spans by blast
  have 1: "parseText (js ''x**a**'') = [Plain (js ''x''), Emphasis (js ''a''), Plain []]"
    unfolding j(1) using ends[OF h(1,2)] by (simp add: r)
  have 2: "parseText (js ''**a**'') = [Plain [], Emphasis (js ''a''), Plain []]"
    using ends[OF h(7,2)] by (simp add: r)
  have 3: "parseText (js ''x**a**[b]'')
     = [Plain (js ''x''), Emphasis (js ''a''), Plain [], Bookmark (js ''b''), Plain []]"
    unfolding j(2) using adjacent[of "js ''x''" "js ''**a**''" "js ''[b]''" "[]"] h
    by (simp add: r 0)
  have 4: "parseText (js ''**a**[b]'')
     = [Plain [], Emphasis (js ''a''), Plain [], Bookmark (js ''b''), Plain []]"
    unfolding j(3) using adjacent[of "[]" "js ''**a**''" "js ''[b]''" "[]"] h
    by (simp add: r 0)
  have 5: "parseText (js ''a*b]'') = [Plain (js ''a*b]'')]"
    using plain[OF h(6)] by (simp add: r)
  have "parseText t = Plain [] # renderPart m # parseText (drop (length m) t)"
    if "matchToken t = Some m" for t m
    using that parseText_empty_plain_spans[where t = t and m = m] by blast
  from this[OF h(5)]
  have 6: "parseText (js ''[b]'') = [Plain [], Bookmark (js ''b''), Plain []]"
    by (simp add: r 0)
  have "parseText (pre @ m @ rest) = renderPart pre # renderPart m # parseText rest"
    if "noTokenIn pre (m @ rest)" "matchToken (m @ rest) = Some m" for pre m rest
    using that parseText_empty_plain_spans[where pre = pre and m = m and rest = rest]
    by blast
  from this[OF h(3,4)]
  have 7: "parseText (js ''x**a**[b]'')
     = Plain (js ''x'') # Emphasis (js ''a'') # parseText (js ''[b]'')"
    unfolding j(2) by (simp add: r)
  from h 0 1 2 3 4 5 6 7 j(4) show ?thesis
    by simp
qed

section \<open>JavaScript numbers\<close>

text \<open>
  A number is an IEEE 754 double: a whole multiple, of at most 53 bits, of a power of
  two, the power being at least \<open>2\<^sup>-\<^sup>1\<^sup>0\<^sup>7\<^sup>4\<close>. The model keeps numbers as reals and rounds
  the result of every addition, subtraction and division to the nearest double, a tie
  going to the even multiple; \<open>Math.min\<close>, \<open>Math.max\<close> and the comparisons are exact.
  \<open>NaN\<close> and the infinities (results from \<open>2\<^sup>1\<^sup>0\<^sup>2\<^sup>4\<close> on) are not modelled: no number
  below comes near them.

  \<open>expo x\<close> is the exponent of the power of two at or below a positive \<open>x\<close>.
\<close>

function expo :: "real \<Rightarrow> int" where
  "expo x =
     (if x \<le> 0 then 0
      else if x < 1 then expo (2 * x) - 1
      else if 2 \<le> x then expo (x / 2) + 1
      else 0)"
  by pat_completeness auto
termination
proof (relation "measure (\<lambda>x. nat \<bar>\<lfloor>log 2 x\<rfloor>\<bar>)")
  show "wf (measure (\<lambda>x. nat \<bar>\<lfloor>log 2 x\<rfloor>\<bar>))" by simp
next
  fix x :: real
  assume a: "\<not> x \<le> 0" "x < 1"
  then have "log 2 (2 * x) = 1 + log 2 x" by (simp add: log_mult)
  then have f: "\<lfloor>log 2 (2 * x)\<rfloor> = \<lfloor>log 2 x\<rfloor> + 1" by simp
  have "log 2 x < 0" using a by simp
  then have "\<lfloor>log 2 x\<rfloor> < 0" by (rule iffD2[OF floor_less_zero])
  with f have "nat \<bar>\<lfloor>log 2 (2 * x)\<rfloor>\<bar> < nat \<bar>\<lfloor>log 2 x\<rfloor>\<bar>" by linarith
  then show "(2 * x, x) \<in> measure (\<lambda>x. nat \<bar>\<lfloor>log 2 x\<rfloor>\<bar>)"
    by (simp only: in_measure)
next
  fix x :: real
  assume a: "\<not> x \<le> 0" "\<not> x < 1" "2 \<le> x"
  then have "log 2 (x / 2) = log 2 x - 1" by (simp add: log_divide)
  then have f: "\<lfloor>log 2 (x / 2)\<rfloor> = \<lfloor>log 2 x\<rfloor> - 1" by simp
  have "1 \<le> log 2 x" using a by (simp add: le_log_iff)
  then have "1 \<le> \<lfloor>log 2 x\<rfloor>" by (simp add: le_floor_iff)
  with f have "nat \<bar>\<lfloor>log 2 (x / 2)\<rfloor>\<bar> < nat \<bar>\<lfloor>log 2 x\<rfloor>\<bar>" by linarith
  then show "(x / 2, x) \<in> measure (\<lambda>x. nat \<bar>\<lfloor>log 2 x\<rfloor>\<bar>)"
    by (simp only: in_measure)
qed

declare expo.simps [simp del]

text \<open>Rounding a real to the nearest whole number, a tie going to the even one.\<close>

definition rhe :: "real \<Rightarrow> int" where
  "rhe r =
     (let f = \<lfloor>r\<rfloor>
      in if r - of_int f < 1 / 2 then f
         else if 1 / 2 < r - of_int f then f + 1
         else if even f then f else f + 1)"

text \<open>
  The exponent of the unit in the last place of the doubles around \<open>x\<close> (52 below the
  exponent of \<open>x\<close>, and never below that of the subnormal numbers), and the double
  nearest to \<open>x\<close>.
\<close>

definition ulpExp :: "real \<Rightarrow> int" where
  "ulpExp x = max (expo \<bar>x\<bar> - 52) (- 1074)"

definition fl :: "real \<Rightarrow> real" where
  "fl x = of_int (rhe (x / 2 powi ulpExp x)) * 2 powi ulpExp x"

definition isDouble :: "real \<Rightarrow> bool" where
  "isDouble x = (fl x = x)"

text \<open>\<open>a + b\<close>, \<open>a - b\<close> and \<open>a / b\<close> on numbers.\<close>

definition add_double :: "real \<Rightarrow> real \<Rightarrow> real" where
  "add_double a b = fl (a + b)"

definition sub_double :: "real \<Rightarrow> real \<Rightarrow> real" where
  "sub_double a b = fl (a - b)"

definition div_double :: "real \<Rightarrow> real \<Rightarrow> real" where
  "div_double a b = fl (a / b)"

section \<open>Properties of the rounding\<close>

lemma expo_bounds:
  "0 < x \<Longrightarrow> 2 powi expo x \<le> x \<and> x < 2 powi (expo x + 1)"
proof (induction x rule: expo.induct)
  case (1 x)
  consider (small) "x < 1" | (big) "2 \<le> x" | (mid) "1 \<le> x" "x < 2" by linarith
  then show ?case
  proof cases
    case small
    with "1.prems" have e: "expo x = expo (2 * x) - 1" by (subst expo.simps) simp
    have ih: "2 powi expo (2 * x) \<le> 2 * x \<and> 2 * x < 2 powi (expo (2 * x) + 1)"
      using "1.IH"(1) "1.prems" small by simp
    have "(2::real) powi (expo (2 * x) - 1) = 2 powi expo (2 * x) / 2"
      by (simp add: power_int_diff)
    moreover have "(2::real) powi (expo (2 * x) + 1) = 2 powi expo (2 * x) * 2"
      by (simp add: power_int_add)
    ultimately show ?thesis using ih unfolding e by simp
  next
    case big
    with "1.prems" have e: "expo x = expo (x / 2) + 1" by (subst expo.simps) simp
    have ih: "2 powi expo (x / 2) \<le> x / 2 \<and> x / 2 < 2 powi (expo (x / 2) + 1)"
      using "1.IH"(2) "1.prems" big by simp
    have "(2::real) powi (expo (x / 2) + 1) = 2 powi expo (x / 2) * 2"
      by (simp add: power_int_add)
    moreover have "(2::real) powi (expo (x / 2) + 1 + 1) = 2 powi expo (x / 2) * 2 * 2"
      by (simp add: power_int_add)
    ultimately show ?thesis using ih unfolding e by simp
  next
    case mid
    then have "expo x = 0" by (subst expo.simps) simp
    with mid show ?thesis by simp
  qed
qed

lemma expo_unique:
  assumes "2 powi k \<le> x" "x < 2 powi (k + 1)"
  shows "expo x = k"
proof -
  have pos: "0 < x" using assms(1) by (smt (verit) zero_less_power_int)
  note b = expo_bounds[OF pos]
  have "expo x < k + 1"
  proof (rule ccontr)
    assume "\<not> expo x < k + 1"
    then have "(2::real) powi (k + 1) \<le> 2 powi expo x"
      by (intro power_int_increasing) auto
    with b assms show False by linarith
  qed
  moreover have "k < expo x + 1"
  proof (rule ccontr)
    assume "\<not> k < expo x + 1"
    then have "(2::real) powi (expo x + 1) \<le> 2 powi k"
      by (intro power_int_increasing) auto
    with b assms show False by linarith
  qed
  ultimately show ?thesis by linarith
qed

lemma expo_mono:
  assumes "0 < x" "x \<le> y"
  shows "expo x \<le> expo y"
proof (rule ccontr)
  assume "\<not> expo x \<le> expo y"
  then have "(2::real) powi (expo y + 1) \<le> 2 powi expo x"
    by (intro power_int_increasing) auto
  with expo_bounds[of x] expo_bounds[of y] assms show False by linarith
qed

lemma rhe_floor: "\<lfloor>r\<rfloor> \<le> rhe r \<and> rhe r \<le> \<lfloor>r\<rfloor> + 1"
  by (simp add: rhe_def Let_def)

lemma rhe_of_int: "rhe (of_int n) = n"
  by (simp add: rhe_def)

lemma rhe_ge:
  assumes "of_int n \<le> r"
  shows "n \<le> rhe r"
proof -
  from assms have "n \<le> \<lfloor>r\<rfloor>" by (simp add: le_floor_iff)
  with rhe_floor[of r] show ?thesis by linarith
qed

lemma rhe_le:
  assumes "r \<le> of_int n"
  shows "rhe r \<le> n"
proof (cases "r = of_int \<lfloor>r\<rfloor>")
  case True
  then have "rhe r = \<lfloor>r\<rfloor>" by (metis rhe_of_int)
  with assms show ?thesis by (simp add: floor_le_iff)
next
  case False
  then have "of_int \<lfloor>r\<rfloor> < r" by (metis of_int_floor_le order_le_less)
  with assms have "\<lfloor>r\<rfloor> < n" by linarith
  with rhe_floor[of r] show ?thesis by linarith
qed

lemma fl_nonneg: "0 \<le> x \<Longrightarrow> 0 \<le> fl x"
proof -
  assume "0 \<le> x"
  then have "0 \<le> x / 2 powi ulpExp x" by simp
  then have "0 \<le> rhe (x / 2 powi ulpExp x)" using rhe_ge[of 0] by simp
  then show ?thesis by (simp add: fl_def)
qed

lemma fl_nonpos: "x \<le> 0 \<Longrightarrow> fl x \<le> 0"
proof -
  assume "x \<le> 0"
  then have "x / 2 powi ulpExp x \<le> 0" by (simp add: divide_nonpos_pos)
  then have "rhe (x / 2 powi ulpExp x) \<le> 0" using rhe_le[of _ 0] by simp
  then show ?thesis by (simp add: fl_def mult_nonpos_nonneg)
qed

lemma ulpExp_pos: "0 < x \<Longrightarrow> ulpExp x = max (expo x - 52) (- 1074)"
  by (simp add: ulpExp_def)

lemma ulpExp_mono: "0 < x \<Longrightarrow> x \<le> y \<Longrightarrow> ulpExp x \<le> ulpExp y"
  using expo_mono[of x y] by (simp add: ulpExp_pos)

text \<open>A multiple of a power of two is an integer multiple of every smaller power of two.\<close>

lemma multiple_of_smaller:
  assumes "b \<le> a"
  shows "of_int n * (2::real) powi a / 2 powi b = of_int (n * 2 ^ nat (a - b))"
proof -
  have "(2::real) powi a = 2 powi (a - b) * 2 powi b"
    by (simp flip: power_int_add)
  moreover have "(2::real) powi (a - b) = 2 ^ nat (a - b)"
    using assms by (simp add: power_int_nonneg_exp)
  ultimately show ?thesis by simp
qed

lemma fl_le:
  assumes d: "fl d = d" and x: "0 < x" "x \<le> d"
  shows "fl x \<le> d"
proof -
  have dpos: "0 < d" using x by linarith
  define n where "n = rhe (d / 2 powi ulpExp d)"
  have dn: "d = of_int n * 2 powi ulpExp d"
    using d by (simp add: fl_def n_def)
  have le: "ulpExp x \<le> ulpExp d" using x by (rule ulpExp_mono)
  have "d / 2 powi ulpExp x = of_int (n * 2 ^ nat (ulpExp d - ulpExp x))"
    by (subst dn) (rule multiple_of_smaller[OF le])
  moreover have "x / 2 powi ulpExp x \<le> d / 2 powi ulpExp x"
    using x by (simp add: divide_right_mono)
  ultimately have "rhe (x / 2 powi ulpExp x) \<le> n * 2 ^ nat (ulpExp d - ulpExp x)"
    by (intro rhe_le) simp
  then have "of_int (rhe (x / 2 powi ulpExp x)) * (2::real) powi ulpExp x
      \<le> of_int (n * 2 ^ nat (ulpExp d - ulpExp x)) * 2 powi ulpExp x"
    by (intro mult_right_mono) (simp_all only: of_int_le_iff zero_le_power_int zero_le_numeral)
  also have "\<dots> = d / 2 powi ulpExp x * 2 powi ulpExp x"
    using \<open>d / 2 powi ulpExp x = of_int (n * 2 ^ nat (ulpExp d - ulpExp x))\<close> by simp
  also have "\<dots> = d" by simp
  finally show ?thesis by (simp add: fl_def)
qed

lemma fl_ge:
  assumes d: "fl d = d" and x: "0 < d" "d \<le> x"
  shows "d \<le> fl x"
proof -
  have xpos: "0 < x" using x by linarith
  define n where "n = rhe (d / 2 powi ulpExp d)"
  have dn: "d = of_int n * 2 powi ulpExp d"
    using d by (simp add: fl_def n_def)
  have npos: "1 \<le> n"
  proof (rule ccontr)
    assume "\<not> 1 \<le> n"
    then have "of_int n \<le> (0::real)" by simp
    then have "of_int n * (2::real) powi ulpExp d \<le> 0"
      by (simp add: mult_nonpos_nonneg)
    with dn x show False by linarith
  qed
  define u where "u = (2::real) powi ulpExp x"
  have upos: "0 < u" by (simp add: u_def)
  have flx: "fl x = of_int (rhe (x / u)) * u" by (simp add: fl_def u_def)
  have kd: "expo d \<le> expo x" using x by (intro expo_mono)
  show ?thesis
  proof (cases "expo d = expo x")
    case True
    then have "ulpExp d = ulpExp x" using x xpos by (simp add: ulpExp_pos)
    then have "d / u = of_int n" using dn upos by (simp add: u_def)
    moreover have "d / u \<le> x / u" using x upos by (simp add: divide_right_mono)
    ultimately have "n \<le> rhe (x / u)" by (intro rhe_ge) simp
    then have "of_int n * u \<le> of_int (rhe (x / u)) * u"
      using upos by (intro mult_right_mono) simp_all
    with \<open>d / u = of_int n\<close> upos flx show ?thesis by (simp add: field_simps)
  next
    case False
    with kd have lt: "expo d < expo x" by simp
    have "d < 2 powi (expo d + 1)" using expo_bounds[OF x(1)] by simp
    also have "\<dots> \<le> 2 powi expo x" using lt by (intro power_int_increasing) auto
    finally have dk: "d < 2 powi expo x" .
    have "(2::real) powi (- 1074) \<le> 2 powi ulpExp d"
      by (intro power_int_increasing) (auto simp: ulpExp_pos[OF x(1)])
    also have "\<dots> = 1 * 2 powi ulpExp d" by simp
    also have "\<dots> \<le> of_int n * 2 powi ulpExp d"
      using npos by (intro mult_right_mono) simp_all
    finally have "(2::real) powi (- 1074) \<le> d" using dn by simp
    with \<open>d < 2 powi (expo d + 1)\<close> have "(2::real) powi (- 1074) < 2 powi (expo d + 1)"
      by linarith
    then have "- 1074 < expo d + 1"
      by (metis linorder_not_less one_le_numeral power_int_increasing)
    with lt have ge: "ulpExp x \<le> expo x" by (simp add: ulpExp_pos[OF xpos])
    have "(2::real) powi expo x / u = of_int (1 * 2 ^ nat (expo x - ulpExp x))"
      unfolding u_def using multiple_of_smaller[OF ge, of 1] by simp
    moreover have "2 powi expo x / u \<le> x / u"
      using expo_bounds[OF xpos] upos by (simp add: divide_right_mono)
    ultimately have "1 * 2 ^ nat (expo x - ulpExp x) \<le> rhe (x / u)"
      by (intro rhe_ge) simp
    then have "of_int (1 * 2 ^ nat (expo x - ulpExp x)) * u \<le> of_int (rhe (x / u)) * u"
      using upos by (intro mult_right_mono) (simp_all only: of_int_le_iff less_imp_le)
    with \<open>(2::real) powi expo x / u = of_int (1 * 2 ^ nat (expo x - ulpExp x))\<close> upos flx
    have "2 powi expo x \<le> fl x" by (simp add: field_simps)
    with dk show ?thesis by linarith
  qed
qed

text \<open>Integers of at most 53 bits, scaled by a power of two from \<open>2\<^sup>-\<^sup>1\<^sup>0\<^sup>7\<^sup>4\<close> on, are doubles.\<close>

lemma fl_scaled_int:
  assumes "0 < n" "n < 2 ^ 53" "- 1074 \<le> e"
  shows "fl (of_int n * 2 powi e) = of_int n * 2 powi e"
proof -
  let ?x = "of_int n * (2::real) powi e"
  have xpos: "0 < ?x" using assms(1) by simp
  have "of_int n < (2::real) ^ 53" using assms(2) by (metis of_int_less_numeral_power_cancel_iff)
  then have "?x < 2 ^ 53 * 2 powi e"
    by (intro mult_strict_right_mono) simp_all
  also have "\<dots> = 2 powi (53 + e)" by (simp add: power_int_add)
  finally have "?x < 2 powi (53 + e)" .
  with expo_bounds[OF xpos] have "(2::real) powi expo ?x < 2 powi (53 + e)" by linarith
  then have "expo ?x < 53 + e"
    by (metis linorder_not_less one_le_numeral power_int_increasing)
  with assms(3) have le: "ulpExp ?x \<le> e" by (simp add: ulpExp_pos[OF xpos])
  have "?x / 2 powi ulpExp ?x = of_int (n * 2 ^ nat (e - ulpExp ?x))"
    by (rule multiple_of_smaller[OF le])
  then have "of_int (rhe (?x / 2 powi ulpExp ?x)) * 2 powi ulpExp ?x
      = ?x / 2 powi ulpExp ?x * 2 powi ulpExp ?x"
    by (simp only: rhe_of_int)
  also have "\<dots> = ?x" by simp
  finally show ?thesis by (simp only: fl_def)
qed

subsection \<open>Computing with doubles\<close>

lemma expo_small: "0 < x \<Longrightarrow> x < 1 \<Longrightarrow> expo x = expo (2 * x) - 1"
  by (subst expo.simps) simp

lemma expo_big: "2 \<le> x \<Longrightarrow> expo x = expo (x / 2) + 1"
  by (subst expo.simps) simp

lemma expo_mid: "1 \<le> x \<Longrightarrow> x < 2 \<Longrightarrow> expo x = 0"
  by (subst expo.simps) simp

lemma expo_zero: "expo 0 = 0"
  by (subst expo.simps) simp

lemmas double_eval =
  add_double_def sub_double_def div_double_def isDouble_def fl_def ulpExp_def rhe_def Let_def
  expo_small expo_big expo_mid expo_zero power_int_minus_divide

section \<open>The data model\<close>

text \<open>
  The types of \<open>types.ts\<close>. Speed, font size and scroll offset are numbers as above;
  the timestamps, which \<open>Date.now()\<close> gives as whole milliseconds, are integers. An
  optional field is an option, \<open>None\<close> for \<open>undefined\<close>.
\<close>

datatype FontStyle = font_inter | font_lora | font_roboto_mono

datatype Alignment = left | center | right

datatype Mode = day | night

datatype Direction = ltr | rtl

record PromptSettings =
  speed :: real
  fontSize :: real
  fontStyle :: FontStyle
  alignment :: Alignment
  mode :: Mode
  direction :: Direction

record Prompt =
  id' :: jsstring
  title :: jsstring
  "text" :: jsstring
  settings :: PromptSettings
  startTime :: "int option"
  endTime :: "int option"
  createdAt :: int

definition DEFAULT_SETTINGS :: PromptSettings where
  "DEFAULT_SETTINGS =
     \<lparr>speed = 2, fontSize = 6, fontStyle = font_inter, alignment = center,
      mode = night, direction = ltr\<rparr>"

section \<open>The teleprompter view\<close>

text \<open>
  The state of one mounted \<open>TeleprompterView\<close>: its four \<open>useState\<close> cells, and the
  values that the \<open>keydown\<close> listener now registered on the window has closed over.
  The listener is created by an effect with the dependencies \<open>[speed, fontSize, onBack]\<close>.
  It calls \<open>togglePlay\<close> and reads \<open>speed\<close> and \<open>fontSize\<close> of the render in which the
  effect last ran, so it sees the \<open>startTime\<close> of that render, not of the latest one.
  (\<open>onBack\<close> is a function of \<open>App\<close>, which does not render again while the view is
  shown.)
\<close>

record TeleprompterView =
  prompt :: Prompt
  isPlaying :: bool
  scrollPos :: real
  startTime :: "int option"
  listenerSpeed :: real
  listenerFontSize :: real
  listenerStartTime :: "int option"

text \<open>
  The first render and the first run of the effects:
  \<^verbatim>\<open>useState(initialPrompt); useState(false); useState(0); useState(undefined)\<close>.
\<close>

definition mount :: "Prompt \<Rightarrow> TeleprompterView" where
  "mount initialPrompt =
     \<lparr>prompt = initialPrompt, isPlaying = False, scrollPos = 0, startTime = None,
      listenerSpeed = speed (settings initialPrompt),
      listenerFontSize = fontSize (settings initialPrompt),
      listenerStartTime = None\<rparr>"

text \<open>
  A render after a state change: the effect registers a new listener exactly when
  \<open>speed\<close> or \<open>fontSize\<close> differs from the value of its last run.
\<close>

definition rerender :: "TeleprompterView \<Rightarrow> TeleprompterView" where
  "rerender v =
     (if speed (settings (prompt v)) \<noteq> listenerSpeed v
         \<or> fontSize (settings (prompt v)) \<noteq> listenerFontSize v
      then v\<lparr>listenerSpeed := speed (settings (prompt v)),
             listenerFontSize := fontSize (settings (prompt v)),
             listenerStartTime := TeleprompterView.startTime v\<rparr>
      else v)"

text \<open>
  \<^verbatim>\<open>updateSetting(key, value)\<close>: the key with a value of the key's type, and
  \<^verbatim>\<open>setPrompt(p => ({ ...p, settings: { ...p.settings, [key]: value } }))\<close>.
\<close>

datatype Setting =
  SetSpeed real | SetFontSize real | SetFontStyle FontStyle | SetAlignment Alignment
  | SetMode Mode | SetDirection Direction

fun assign :: "Setting \<Rightarrow> PromptSettings \<Rightarrow> PromptSettings" where
  "assign (SetSpeed x) s = s\<lparr>speed := x\<rparr>"
| "assign (SetFontSize x) s = s\<lparr>fontSize := x\<rparr>"
| "assign (SetFontStyle x) s = s\<lparr>fontStyle := x\<rparr>"
| "assign (SetAlignment x) s = s\<lparr>alignment := x\<rparr>"
| "assign (SetMode x) s = s\<lparr>mode := x\<rparr>"
| "assign (SetDirection x) s = s\<lparr>direction := x\<rparr>"

definition updateSetting :: "Setting \<Rightarrow> TeleprompterView \<Rightarrow> TeleprompterView" where
  "updateSetting kv v = v\<lparr>prompt := (prompt v)\<lparr>settings := assign kv (settings (prompt v))\<rparr>\<rparr>"

text \<open>
  \<^verbatim>\<open>setIsPlaying(prev => !prev); if (!startTime) { setStartTime(Date.now()); }\<close>

  \<open>!startTime\<close> holds for \<open>undefined\<close> and for the number zero. The first argument is
  the \<open>startTime\<close> that the calling closure sees, the second the clock.
\<close>

definition falsy :: "int option \<Rightarrow> bool" where
  "falsy t = (t = None \<or> t = Some 0)"

definition togglePlay :: "int option \<Rightarrow> int \<Rightarrow> TeleprompterView \<Rightarrow> TeleprompterView" where
  "togglePlay seen now v =
     (if falsy seen
      then v\<lparr>isPlaying := \<not> isPlaying v, startTime := Some now\<rparr>
      else v\<lparr>isPlaying := \<not> isPlaying v\<rparr>)"

text \<open>
  \<^verbatim>\<open>setIsPlaying(false); onFinish({ ...prompt, startTime, endTime: Date.now() })\<close>:
  the state left behind and the record handed to \<open>onFinish\<close>.
\<close>

definition handleFinish :: "int \<Rightarrow> TeleprompterView \<Rightarrow> TeleprompterView \<times> Prompt" where
  "handleFinish now v =
     (v\<lparr>isPlaying := False\<rparr>,
      (prompt v)\<lparr>Prompt.startTime := TeleprompterView.startTime v, endTime := Some now\<rparr>)"

text \<open>
  The body of \<open>scroll\<close>, run once per animation frame; both refs are set once the view
  is mounted. \<open>offsetHeight\<close> is a whole number of pixels.
  \<^verbatim>\<open>setScrollPos(prev => prev + speed / 10)\<close> divides and adds as numbers do.
\<close>

definition scroll :: "int \<Rightarrow> TeleprompterView \<Rightarrow> TeleprompterView" where
  "scroll offsetHeight v =
     (if scrollPos v < of_int offsetHeight
      then v\<lparr>scrollPos :=
             add_double (scrollPos v) (div_double (speed (settings (prompt v))) 10)\<rparr>
      else v\<lparr>isPlaying := False\<rparr>)"

text \<open>
  What can happen to a mounted view, short of leaving it: a click on the play button,
  the keys, the buttons and inputs of the control bar, and an animation frame (with the
  height of the content at that time). A click and a key press that call \<open>togglePlay\<close>
  carry the reading of the clock; the two range inputs carry the number parsed from
  their value.
\<close>

datatype Event =
  ClickPlay int | KeySpace int
  | KeyArrowUp | KeyArrowDown | KeyArrowRight | KeyArrowLeft
  | ClickSpeedMinus | ChangeSpeed real | ClickSpeedPlus
  | ClickFontSizeMinus | ChangeFontSize real | ClickFontSizePlus
  | ClickAlignment Alignment | ChangeFontStyle FontStyle | ClickMode
  | AnimationFrame int

text \<open>
  The handlers. Those of the control bar are closures of the latest render; those of
  the keys are the registered listener's. A frame is requested only while playing
  (the effect on \<open>isPlaying\<close> cancels the pending request otherwise), and \<open>scroll\<close>,
  a callback with the dependencies \<open>[scrollPos, speed]\<close> that the effect requests anew
  whenever it changes, sees the latest offset and speed. Every event is followed by
  the render of the state it has set before the next event is handled.
\<close>

fun handle :: "Event \<Rightarrow> TeleprompterView \<Rightarrow> TeleprompterView" where
  "handle (ClickPlay now) v = togglePlay (TeleprompterView.startTime v) now v"
| "handle (KeySpace now) v = togglePlay (listenerStartTime v) now v"
| "handle KeyArrowUp v =
     updateSetting (SetSpeed (min 10 (add_double (listenerSpeed v) 0.5))) v"
| "handle KeyArrowDown v =
     updateSetting (SetSpeed (max 0 (sub_double (listenerSpeed v) 0.5))) v"
| "handle KeyArrowRight v =
     updateSetting (SetFontSize (min 20 (add_double (listenerFontSize v) 0.5))) v"
| "handle KeyArrowLeft v =
     updateSetting (SetFontSize (max 1 (sub_double (listenerFontSize v) 0.5))) v"
| "handle ClickSpeedMinus v =
     updateSetting (SetSpeed (max 0 (sub_double (speed (settings (prompt v))) 0.5))) v"
| "handle (ChangeSpeed x) v = updateSetting (SetSpeed x) v"
| "handle ClickSpeedPlus v =
     updateSetting (SetSpeed (min 10 (add_double (speed (settings (prompt v))) 0.5))) v"
| "handle ClickFontSizeMinus v =
     updateSetting (SetFontSize (max 1 (sub_double (fontSize (settings (prompt v))) 0.5))) v"
| "handle (ChangeFontSize x) v = updateSetting (SetFontSize x) v"
| "handle ClickFontSizePlus v =
     updateSetting (SetFontSize (min 20 (add_double (fontSize (settings (prompt v))) 0.5))) v"
| "handle (ClickAlignment a) v = updateSetting (SetAlignment a) v"
| "handle (ChangeFontStyle f) v = updateSetting (SetFontStyle f) v"
| "handle ClickMode v =
     updateSetting (SetMode (if mode (settings (prompt v)) = night then day else night)) v"
| "handle (AnimationFrame h) v = (if isPlaying v then scroll h v else v)"

definition step :: "Event \<Rightarrow> TeleprompterView \<Rightarrow> TeleprompterView" where
  "step e v = rerender (handle e v)"

fun run :: "Event list \<Rightarrow> TeleprompterView \<Rightarrow> TeleprompterView" where
  "run [] v = v"
| "run (e # es) v = run es (step e v)"

section \<open>The application\<close>

text \<open>
  \<open>Number.prototype.toString\<close> on a whole number (below \<open>10\<^sup>2\<^sup>1\<close> in size): its decimal
  digits, after a minus sign when it is negative.
\<close>

function digits :: "int \<Rightarrow> jsstring" where
  "digits i = (if i < 10 then [of_int (48 + i)] else digits (i div 10) @ [of_int (48 + i mod 10)])"
  by pat_completeness auto
termination
  by (relation "measure nat") auto

definition toString :: "int \<Rightarrow> jsstring" where
  "toString i = (if i < 0 then 0x2D # digits (- i) else digits i)"

text \<open>
  \<open>createNewPrompt(settings)\<close>; the two arguments in front are the two readings of
  \<open>Date.now()\<close>, for the id and for \<open>createdAt\<close>.
\<close>

definition createNewPrompt :: "int \<Rightarrow> int \<Rightarrow> PromptSettings \<Rightarrow> Prompt" where
  "createNewPrompt now1 now2 s =
     \<lparr>id' = toString now1,
      title = js ''Untitled Prompt'',
      text = js (''Welcome to ProPrompter AI! Paste your script here. '' @ [CHR 0x0A, CHR 0x0A]
        @ ''You can **highlight** important text by wrapping it in double asterisks. ''
        @ [CHR 0x0A, CHR 0x0A] @ ''Add a [bookmark] to jump to specific sections.''),
      settings = s,
      startTime = None,
      endTime = None,
      createdAt = now2\<rparr>"

text \<open>A prompt as \<open>App\<close> first creates it, for the examples below.\<close>

definition freshPrompt :: Prompt where
  "freshPrompt = createNewPrompt 1700000000000 1700000000000 DEFAULT_SETTINGS"

section \<open>Properties of the settings mutators\<close>








text \<open>Rounding does not cross a double: the bounds of the ranges are doubles.\<close>

lemma fl_bounds: "fl 0 = 0" "fl 1 = 1" "fl 10 = 10" "fl 20 = 20"
  by (simp_all add: double_eval)

lemma fl_at_least:
  assumes "fl d = d" "0 \<le> d" "d \<le> x"
  shows "d \<le> fl x"
proof (cases "d = 0")
  case True
  with assms show ?thesis by (simp add: fl_nonneg)
next
  case False
  with assms show ?thesis by (intro fl_ge) simp_all
qed

lemma fl_at_most:
  assumes "fl d = d" "0 \<le> d" "x \<le> d"
  shows "fl x \<le> d"
proof (cases "0 < x")
  case True
  with assms show ?thesis by (intro fl_le) simp_all
next
  case False
  then have "fl x \<le> 0" by (simp add: fl_nonpos)
  with assms show ?thesis by linarith
qed





text \<open>The mutator itself stores the value it is handed.\<close>

lemma updateSetting_stores:
  "speed (settings (prompt (updateSetting (SetSpeed x) v))) = x"
  "fontSize (settings (prompt (updateSetting (SetFontSize y) v))) = y"
  by (simp_all add: updateSetting_def)



section \<open>Properties of the session timestamps\<close>

fun isPlayAction :: "Event \<Rightarrow> bool" where
  "isPlayAction (ClickPlay now) = True"
| "isPlayAction (KeySpace now) = True"
| "isPlayAction e = False"

fun isSpaceKey :: "Event \<Rightarrow> bool" where
  "isSpaceKey (KeySpace now) = True"
| "isSpaceKey e = False"

lemma startTime_rerender:
  "TeleprompterView.startTime (rerender v) = TeleprompterView.startTime v"
  by (simp add: rerender_def)

text \<open>
  Through the play button, a start timestamp once recorded stays, as long as it is not
  the number zero, which \<open>!startTime\<close> takes for a missing one.
\<close>

lemma startTime_step_kept:
  assumes "TeleprompterView.startTime v = Some t" "t \<noteq> 0" "\<not> isSpaceKey e"
  shows "TeleprompterView.startTime (step e v) = Some t"
  using assms
  by (cases e)
    (auto simp: step_def startTime_rerender togglePlay_def falsy_def updateSetting_def scroll_def)

lemma startTime_run_kept:
  assumes "TeleprompterView.startTime v = Some t" "t \<noteq> 0" "\<forall>e \<in> set es. \<not> isSpaceKey e"
  shows "TeleprompterView.startTime (run es v) = Some t"
  using assms
  by (induction es arbitrary: v) (simp_all add: startTime_step_kept)

lemma button_keeps_startTime:
  "TeleprompterView.startTime
     (run [ClickPlay 1000, ClickPlay 2000, ClickPlay 3000] (mount freshPrompt)) = Some 1000"
  by code_simp

text \<open>
  Claim C3. Within one session the start timestamp is set by the first play action
  only; a later pause and resume leaves it unchanged. Through the space key the view
  breaks this: the listener registered at mount keeps calling the \<open>togglePlay\<close> of the
  first render, which sees no start timestamp, so every press of the key, the pause
  included, records the clock again. Play at 1000, pause at 2000, play at 3000 leaves
  the start timestamp 3000.
\<close>

theorem space_key_overwrites_startTime:
  "TeleprompterView.startTime (run [KeySpace 1000] (mount freshPrompt)) = Some 1000 \<and>
   isPlaying (run [KeySpace 1000] (mount freshPrompt)) \<and>
   TeleprompterView.startTime (run [KeySpace 1000, KeySpace 2000] (mount freshPrompt))
     = Some 2000 \<and>
   \<not> isPlaying (run [KeySpace 1000, KeySpace 2000] (mount freshPrompt)) \<and>
   TeleprompterView.startTime
     (run [KeySpace 1000, KeySpace 2000, KeySpace 3000] (mount freshPrompt)) = Some 3000 \<and>
   isPlaying (run [KeySpace 1000, KeySpace 2000, KeySpace 3000] (mount freshPrompt))"
  by code_simp

lemma not_started_step:
  assumes "TeleprompterView.startTime v = None" "listenerStartTime v = None" "\<not> isPlayAction e"
  shows "TeleprompterView.startTime (step e v) = None \<and> listenerStartTime (step e v) = None"
  using assms
  by (cases e) (auto simp: step_def rerender_def updateSetting_def scroll_def)

lemma not_started_run:
  assumes "TeleprompterView.startTime v = None" "listenerStartTime v = None"
    and "\<forall>e \<in> set es. \<not> isPlayAction e"
  shows "TeleprompterView.startTime (run es v) = None"
  using assms
proof (induction es arbitrary: v)
  case Nil
  then show ?case by simp
next
  case (Cons e es)
  then show ?case using not_started_step[of v e] by simp
qed

text \<open>
  Claim C4. A session that is started and finished with no play action in between,
  whatever else happens, emits a record whose start timestamp is undefined and whose
  end timestamp is the clock at the finish.
\<close>

theorem finish_without_play:
  assumes "\<forall>e \<in> set es. \<not> isPlayAction e"
  shows "Prompt.startTime (snd (handleFinish now (run es (mount p)))) = None \<and>
         endTime (snd (handleFinish now (run es (mount p)))) = Some now"
proof -
  have "TeleprompterView.startTime (run es (mount p)) = None"
    using assms by (intro not_started_run) (simp_all add: mount_def)
  then show ?thesis
    by (simp add: handleFinish_def)
qed

theorem finish_without_play_witness:
  "\<not> isPlayAction ClickSpeedPlus \<and> \<not> isPlayAction KeyArrowRight \<and> \<not> isPlayAction ClickMode \<and>
   Prompt.startTime (snd (handleFinish 5000 (run [] (mount freshPrompt)))) = None \<and>
   endTime (snd (handleFinish 5000 (run [] (mount freshPrompt)))) = Some 5000 \<and>
   Prompt.startTime (snd (handleFinish 5000
      (run [ClickSpeedPlus, KeyArrowRight, ClickMode] (mount freshPrompt)))) = None \<and>
   endTime (snd (handleFinish 5000
      (run [ClickSpeedPlus, KeyArrowRight, ClickMode] (mount freshPrompt)))) = Some 5000"
  using finish_without_play [of "[]" 5000 freshPrompt]
    finish_without_play [of "[ClickSpeedPlus, KeyArrowRight, ClickMode]" 5000 freshPrompt]
  by simp

section \<open>Properties of the scroll loop\<close>

lemma frame_below:
  assumes "isPlaying v" "scrollPos v < of_int h"
  shows "scrollPos (step (AnimationFrame h) v)
      = add_double (scrollPos v) (div_double (speed (settings (prompt v))) 10)"
    and "isPlaying (step (AnimationFrame h) v)"
    and "settings (prompt (step (AnimationFrame h) v)) = settings (prompt v)"
  using assms by (simp_all add: step_def rerender_def scroll_def)

lemma frame_at_end:
  assumes "isPlaying v" "of_int h \<le> scrollPos v"
  shows "scrollPos (step (AnimationFrame h) v) = scrollPos v"
    and "\<not> isPlaying (step (AnimationFrame h) v)"
  using assms by (simp_all add: step_def rerender_def scroll_def)

lemma frame_stopped:
  assumes "\<not> isPlaying v"
  shows "scrollPos (step (AnimationFrame h) v) = scrollPos v"
    and "\<not> isPlaying (step (AnimationFrame h) v)"
  using assms by (simp_all add: step_def rerender_def)

lemma frames_stopped:
  "\<not> isPlaying v \<Longrightarrow>
     scrollPos (run (replicate n (AnimationFrame h)) v) = scrollPos v \<and>
     \<not> isPlaying (run (replicate n (AnimationFrame h)) v)"
  by (induction n arbitrary: v) (simp_all add: frame_stopped)

subsection \<open>The advance of one frame\<close>

text \<open>
  A speed between a hundredth and ten gives an advance between \<open>2\<^sup>-\<^sup>2\<^sup>1\<close> and one.
\<close>

lemma advance_bounds:
  assumes "1 / 100 \<le> s" "s \<le> 10"
  shows "2 powi (- 21) \<le> div_double s 10" and "div_double s 10 \<le> 1"
proof -
  have "fl (of_int 1 * 2 powi (- 21)) = of_int 1 * 2 powi (- 21)"
    by (rule fl_scaled_int) simp_all
  then have d: "fl (2 powi (- 21)) = 2 powi (- 21)" by simp
  have "(2::real) powi (- 21) \<le> 1 / 1000" by (simp add: power_int_minus_divide)
  also have "\<dots> \<le> s / 10" using assms(1) by simp
  finally have "(2::real) powi (- 21) \<le> s / 10" .
  with d show "2 powi (- 21) \<le> div_double s 10"
    unfolding div_double_def by (intro fl_at_least) simp_all
  show "div_double s 10 \<le> 1"
    unfolding div_double_def using assms(2) by (intro fl_at_most) (simp_all add: fl_bounds)
qed

text \<open>
  Below \<open>2\<^sup>3\<^sup>1\<close> the doubles are at most \<open>2\<^sup>-\<^sup>2\<^sup>2\<close> apart, so that the sum with an advance of
  \<open>2\<^sup>-\<^sup>2\<^sup>1\<close> or more is rounded to a number at least \<open>2\<^sup>-\<^sup>2\<^sup>2\<close> above the offset.
\<close>

lemma advance_progress:
  assumes "0 \<le> pos" "pos + d < 2 ^ 31" "2 powi (- 21) \<le> d"
  shows "pos + 2 powi (- 22) \<le> add_double pos d"
proof -
  define n where "n = \<lfloor>(pos + d) * 2 ^ 22\<rfloor>"
  have half: "(2::real) powi (- 21) = 2 * 2 powi (- 22)"
    by (simp add: power_int_minus_divide)
  have scale: "(2::real) powi (- 22) * 2 ^ 22 = 1"
    by (simp add: power_int_minus_divide)
  have "2 \<le> (pos + d) * 2 ^ 22"
  proof -
    have "2 * (2 powi (- 22) * 2 ^ 22) \<le> (pos + d) * 2 ^ 22"
      using assms(1,3) unfolding half by (simp only: mult.assoc[symmetric]) simp
    then show ?thesis by (simp only: scale)
  qed
  then have n2: "2 \<le> n" by (simp add: n_def le_floor_iff)
  have "(pos + d) * 2 ^ 22 < 2 ^ 31 * 2 ^ 22"
    using assms(2) by (intro mult_strict_right_mono) simp_all
  then have "(pos + d) * 2 ^ 22 < 2 ^ 53" by simp
  then have "n < 2 ^ 53" by (simp add: n_def floor_less_iff)
  with n2 have dbl: "fl (of_int n * 2 powi (- 22)) = of_int n * 2 powi (- 22)"
    by (intro fl_scaled_int) simp_all
  have low: "of_int n \<le> (pos + d) * 2 ^ 22" by (simp add: n_def)
  have "of_int n * 2 powi (- 22) \<le> (pos + d) * 2 ^ 22 * 2 powi (- 22)"
    using low by (intro mult_right_mono) simp_all
  also have "\<dots> = pos + d" using scale by (simp add: mult.assoc mult.commute)
  finally have le: "of_int n * 2 powi (- 22) \<le> pos + d" .
  have "0 < of_int n * (2::real) powi (- 22)" using n2 by simp
  with dbl le have r: "of_int n * 2 powi (- 22) \<le> add_double pos d"
    unfolding add_double_def by (intro fl_ge) simp_all
  have "(pos + d) * 2 ^ 22 < of_int n + 1" by (simp add: n_def)
  then have "(pos + d) * 2 ^ 22 * 2 powi (- 22) < (of_int n + 1) * 2 powi (- 22)"
    by (intro mult_strict_right_mono) simp_all
  then have "pos + d < (of_int n + 1) * 2 powi (- 22)"
    using scale by (simp add: mult.assoc mult.commute)
  then have "pos + d - 2 powi (- 22) < of_int n * 2 powi (- 22)"
    by (simp add: algebra_simps)
  with assms(3) half have "pos + 2 powi (- 22) < of_int n * 2 powi (- 22)"
    by linarith
  with r show ?thesis by linarith
qed

lemma frame_progress:
  assumes "isPlaying v" "scrollPos v < of_int h" "0 \<le> scrollPos v" "h < 2 ^ 31"
    and "1 / 100 \<le> speed (settings (prompt v))" "speed (settings (prompt v)) \<le> 10"
  shows "scrollPos v + 2 powi (- 22) \<le> scrollPos (step (AnimationFrame h) v)"
proof -
  let ?d = "div_double (speed (settings (prompt v))) 10"
  note b = advance_bounds[OF assms(5,6)]
  have "of_int h \<le> (2::real) ^ 31 - 1"
  proof -
    from assms(4) have "h \<le> 2 ^ 31 - 1" by simp
    then have "(of_int h :: real) \<le> of_int (2 ^ 31 - 1)" by (simp only: of_int_le_iff)
    then show ?thesis by simp
  qed
  with assms(2) b(2) have "scrollPos v + ?d < 2 ^ 31" by linarith
  from advance_progress[OF assms(3) this b(1)] show ?thesis
    by (simp only: frame_below(1)[OF assms(1,2)])
qed

text \<open>An offset that is a double does not go down, and does not move at speed zero.\<close>

lemma frame_monotone:
  assumes "isPlaying v" "scrollPos v < of_int h" "isDouble (scrollPos v)" "0 \<le> scrollPos v"
    and "0 \<le> speed (settings (prompt v))"
  shows "scrollPos v \<le> scrollPos (step (AnimationFrame h) v)"
proof -
  have "0 \<le> div_double (speed (settings (prompt v))) 10"
    unfolding div_double_def using assms(5) by (intro fl_nonneg) simp
  then have "scrollPos v
      \<le> add_double (scrollPos v) (div_double (speed (settings (prompt v))) 10)"
    unfolding add_double_def using assms(3,4) by (intro fl_at_least) (simp_all add: isDouble_def)
  then show ?thesis by (simp only: frame_below(1)[OF assms(1,2)])
qed

lemma frame_speed_zero:
  assumes "isPlaying v" "scrollPos v < of_int h" "isDouble (scrollPos v)"
    and "speed (settings (prompt v)) = 0"
  shows "scrollPos (step (AnimationFrame h) v) = scrollPos v"
  using assms(3,4)
  by (simp add: frame_below(1)[OF assms(1,2)] add_double_def div_double_def fl_bounds
      isDouble_def)

subsection \<open>The end of the content is reached\<close>

lemma frames_reach_end:
  assumes "isPlaying v" "0 \<le> scrollPos v" "h < 2 ^ 31"
    and "1 / 100 \<le> speed (settings (prompt v))" "speed (settings (prompt v)) \<le> 10"
    and "of_int h \<le> scrollPos v + real k * 2 powi (- 22)"
  shows "\<not> isPlaying (run (replicate (Suc k) (AnimationFrame h)) v)"
  using assms
proof (induction k arbitrary: v)
  case 0
  then show ?case by (simp add: frame_at_end)
next
  case (Suc k)
  show ?case
  proof (cases "scrollPos v < of_int h")
    case True
    let ?w = "step (AnimationFrame h) v"
    have w: "isPlaying ?w" "settings (prompt ?w) = settings (prompt v)"
      using frame_below[OF Suc.prems(1) True] by simp_all
    have p: "scrollPos v + 2 powi (- 22) \<le> scrollPos ?w"
      using Suc.prems True by (intro frame_progress) simp_all
    have "0 \<le> (2::real) powi (- 22)" by simp
    with p Suc.prems(2) have w0: "0 \<le> scrollPos ?w" by linarith
    have "real (Suc k) * 2 powi (- 22) = 2 powi (- 22) + real k * 2 powi (- 22)"
      by (simp add: algebra_simps)
    with Suc.prems(6) p have "of_int h \<le> scrollPos ?w + real k * 2 powi (- 22)"
      by linarith
    with Suc.IH[of ?w] w w0 Suc.prems(3,4,5) show ?thesis by simp
  next
    case False
    then have "\<not> isPlaying (step (AnimationFrame h) v)"
      using frame_at_end(2)[OF Suc.prems(1)] by simp
    then show ?thesis
      using frames_stopped[of "step (AnimationFrame h) v" "Suc k" h] by simp
  qed
qed

lemma frames_stop:
  assumes "isPlaying v" "0 \<le> scrollPos v" "h < 2 ^ 31"
    and "1 / 100 \<le> speed (settings (prompt v))" "speed (settings (prompt v)) \<le> 10"
  shows "\<exists>n. \<not> isPlaying (run (replicate n (AnimationFrame h)) v)"
proof -
  have "0 < (2::real) powi (- 22)" by simp
  then obtain k :: nat where "of_int h - scrollPos v < real k * 2 powi (- 22)"
    using reals_Archimedean3 by blast
  then have "of_int h \<le> scrollPos v + real k * 2 powi (- 22)" by simp
  from frames_reach_end[OF assms this] show ?thesis by blast
qed

text \<open>At speed zero the machine runs on without moving.\<close>

lemma frames_speed_zero:
  assumes "isPlaying v" "speed (settings (prompt v)) = 0" "scrollPos v < of_int h"
    and "isDouble (scrollPos v)"
  shows "scrollPos (run (replicate n (AnimationFrame h)) v) = scrollPos v \<and>
         isPlaying (run (replicate n (AnimationFrame h)) v)"
  using assms
proof (induction n arbitrary: v)
  case 0
  then show ?case by simp
next
  case (Suc n)
  let ?w = "step (AnimationFrame h) v"
  have "isPlaying ?w" "settings (prompt ?w) = settings (prompt v)" "scrollPos ?w = scrollPos v"
    using frame_below(2,3)[OF Suc.prems(1,3)] frame_speed_zero[OF Suc.prems(1,3,4,2)]
    by simp_all
  with Suc.IH[of ?w] Suc.prems show ?case by simp
qed

subsection \<open>The offsets of a run of frames\<close>

text \<open>
  The frames of a running view, on the numbers alone: whether the machine still runs
  after \<open>n\<close> frames at speed \<open>s\<close> over a content of length \<open>h\<close>, and the offset then.
\<close>

fun offsets :: "real \<Rightarrow> int \<Rightarrow> nat \<Rightarrow> real \<Rightarrow> bool \<times> real" where
  "offsets s h 0 x = (True, x)"
| "offsets s h (Suc n) x =
     (if x < of_int h then offsets s h n (add_double x (div_double s 10)) else (False, x))"

lemma run_frames:
  assumes "isPlaying v"
  shows "(isPlaying (run (replicate n (AnimationFrame h)) v),
          scrollPos (run (replicate n (AnimationFrame h)) v))
      = offsets (speed (settings (prompt v))) h n (scrollPos v)"
  using assms
proof (induction n arbitrary: v)
  case 0
  then show ?case by simp
next
  case (Suc n)
  show ?case
  proof (cases "scrollPos v < of_int h")
    case True
    from frame_below[OF Suc.prems True] Suc.IH[of "step (AnimationFrame h) v"] True
    show ?thesis by simp
  next
    case False
    with frame_at_end[OF Suc.prems, of h]
    have "\<not> isPlaying (step (AnimationFrame h) v)"
      "scrollPos (step (AnimationFrame h) v) = scrollPos v"
      by simp_all
    with frames_stopped[of "step (AnimationFrame h) v" n h] False
    show ?thesis by simp
  qed
qed

text \<open>
  Claim C5, as stated: while running, every frame advances the offset by exactly
  \<open>speed / 10\<close> and the offset strictly increases frame by frame until it reaches the
  content length, for every speed in \<open>[0, 10]\<close>. At speed 0, which the speed input and
  the minus button allow, a frame leaves the offset where it is. And the offset moves
  by the sum of two numbers, rounded: at speed 1 the third frame takes it from
  \<open>0.2\<close> to \<open>0.30000000000000004\<close>, which is not an advance of \<open>1 / 10\<close> as a number;
  after ten frames it is \<open>0.9999999999999999\<close>, below a content length of 1.
\<close>

theorem frame_at_speed_zero:
  "isPlaying (run [ChangeSpeed 0, ClickPlay 1000] (mount freshPrompt)) \<and>
   speed (settings (prompt (run [ChangeSpeed 0, ClickPlay 1000] (mount freshPrompt)))) = 0 \<and>
   scrollPos (run [ChangeSpeed 0, ClickPlay 1000] (mount freshPrompt)) < of_int 100 \<and>
   \<not> scrollPos (run [ChangeSpeed 0, ClickPlay 1000] (mount freshPrompt))
       < scrollPos (step (AnimationFrame 100)
           (run [ChangeSpeed 0, ClickPlay 1000] (mount freshPrompt))) \<and>
   isPlaying (step (AnimationFrame 100)
     (run [ChangeSpeed 0, ClickPlay 1000] (mount freshPrompt))) \<and>
   scrollPos (run (replicate 2 (AnimationFrame 100))
     (run [ChangeSpeed 1, ClickPlay 1000] (mount freshPrompt)))
     = 3602879701896397 / 18014398509481984 \<and>
   scrollPos (run (replicate 3 (AnimationFrame 100))
     (run [ChangeSpeed 1, ClickPlay 1000] (mount freshPrompt)))
     = 1351079888211149 / 4503599627370496 \<and>
   div_double 1 10 = 3602879701896397 / 36028797018963968 \<and>
   scrollPos (run (replicate 3 (AnimationFrame 100))
     (run [ChangeSpeed 1, ClickPlay 1000] (mount freshPrompt)))
   - scrollPos (run (replicate 2 (AnimationFrame 100))
     (run [ChangeSpeed 1, ClickPlay 1000] (mount freshPrompt)))
     \<noteq> div_double 1 10"
proof -
  let ?u = "run [ChangeSpeed 0, ClickPlay 1000] (mount freshPrompt)"
  let ?v = "run [ChangeSpeed 1, ClickPlay 1000] (mount freshPrompt)"
  have u: "isPlaying ?u" "speed (settings (prompt ?u)) = 0" "scrollPos ?u = 0"
    by code_simp+
  have v: "isPlaying ?v" "speed (settings (prompt ?v)) = 1" "scrollPos ?v = 0"
    by code_simp+
  have "offsets 0 100 (Suc 0) 0 = (True, 0)"
    by (simp add: double_eval)
  with run_frames[OF u(1), of "Suc 0" 100] u(2,3)
  have u1: "isPlaying (step (AnimationFrame 100) ?u)"
      "scrollPos (step (AnimationFrame 100) ?u) = 0"
    by simp_all
  have d: "div_double 1 10 = 3602879701896397 / 36028797018963968"
    by (simp add: double_eval)
  have "offsets 1 100 2 0 = (True, 3602879701896397 / 18014398509481984)"
    by (simp add: eval_nat_numeral double_eval)
  with run_frames[OF v(1), of 2 100] v(2,3)
  have v2: "scrollPos (run (replicate 2 (AnimationFrame 100)) ?v)
      = 3602879701896397 / 18014398509481984"
    by simp
  have "offsets 1 100 3 0 = (True, 1351079888211149 / 4503599627370496)"
    by (simp add: eval_nat_numeral double_eval)
  with run_frames[OF v(1), of 3 100] v(2,3)
  have v3: "scrollPos (run (replicate 3 (AnimationFrame 100)) ?v)
      = 1351079888211149 / 4503599627370496"
    by simp
  from u u1 v2 v3 d show ?thesis
    by simp
qed

text \<open>
  Claim C5, amended. While the machine runs, a frame with the offset below the content
  length replaces the offset by the sum, as numbers add, of the offset and
  \<open>speed / 10\<close>, and leaves the machine running. The offset, a number that is not
  negative, does not go down for a speed that is not negative; it does not move at
  speed 0; and it strictly increases for every speed from a hundredth to 10 while the
  content length is below \<open>2\<^sup>3\<^sup>1\<close> pixels. A frame with the offset at or beyond the
  content length stops the machine and leaves the offset. For such a speed and length
  the machine stops after finitely many frames, and once it is stopped the offset no
  longer advances.
\<close>

theorem frame_advances_until_end:
  "(isPlaying v \<and> scrollPos v < of_int h \<longrightarrow>
      scrollPos (step (AnimationFrame h) v)
        = add_double (scrollPos v) (div_double (speed (settings (prompt v))) 10) \<and>
      isPlaying (step (AnimationFrame h) v) \<and>
      (isDouble (scrollPos v) \<and> 0 \<le> scrollPos v \<and> 0 \<le> speed (settings (prompt v)) \<longrightarrow>
         scrollPos v \<le> scrollPos (step (AnimationFrame h) v)) \<and>
      (isDouble (scrollPos v) \<and> speed (settings (prompt v)) = 0 \<longrightarrow>
         scrollPos (step (AnimationFrame h) v) = scrollPos v) \<and>
      (0 \<le> scrollPos v \<and> h < 2 ^ 31 \<and> 1 / 100 \<le> speed (settings (prompt v))
         \<and> speed (settings (prompt v)) \<le> 10 \<longrightarrow>
         scrollPos v < scrollPos (step (AnimationFrame h) v))) \<and>
   (isPlaying v \<and> of_int h \<le> scrollPos v \<longrightarrow>
      \<not> isPlaying (step (AnimationFrame h) v) \<and>
      scrollPos (step (AnimationFrame h) v) = scrollPos v) \<and>
   (isPlaying v \<and> 0 \<le> scrollPos v \<and> h < 2 ^ 31 \<and> 1 / 100 \<le> speed (settings (prompt v))
      \<and> speed (settings (prompt v)) \<le> 10 \<longrightarrow>
      (\<exists>n. \<not> isPlaying (run (replicate n (AnimationFrame h)) v))) \<and>
   (\<not> isPlaying v \<longrightarrow>
      scrollPos (run (replicate n (AnimationFrame h)) v) = scrollPos v \<and>
      \<not> isPlaying (run (replicate n (AnimationFrame h)) v))"
proof (intro conjI impI)
  assume a: "isPlaying v \<and> scrollPos v < of_int h"
  then show "scrollPos (step (AnimationFrame h) v)
      = add_double (scrollPos v) (div_double (speed (settings (prompt v))) 10)"
    by (simp add: frame_below)
  from a show "isPlaying (step (AnimationFrame h) v)"
    by (simp add: frame_below)
  show "scrollPos v \<le> scrollPos (step (AnimationFrame h) v)"
    if "isDouble (scrollPos v) \<and> 0 \<le> scrollPos v \<and> 0 \<le> speed (settings (prompt v))"
    using that a by (intro frame_monotone) simp_all
  show "scrollPos (step (AnimationFrame h) v) = scrollPos v"
    if "isDouble (scrollPos v) \<and> speed (settings (prompt v)) = 0"
    using that a by (intro frame_speed_zero) simp_all
  show "scrollPos v < scrollPos (step (AnimationFrame h) v)"
    if b: "0 \<le> scrollPos v \<and> h < 2 ^ 31 \<and> 1 / 100 \<le> speed (settings (prompt v))
         \<and> speed (settings (prompt v)) \<le> 10"
  proof -
    have "scrollPos v + 2 powi (- 22) \<le> scrollPos (step (AnimationFrame h) v)"
      using a b by (intro frame_progress) simp_all
    moreover have "0 < (2::real) powi (- 22)" by simp
    ultimately show ?thesis by linarith
  qed
next
  assume "isPlaying v \<and> of_int h \<le> scrollPos v"
  then show "\<not> isPlaying (step (AnimationFrame h) v)"
    and "scrollPos (step (AnimationFrame h) v) = scrollPos v"
    by (simp_all add: frame_at_end)
next
  assume "isPlaying v \<and> 0 \<le> scrollPos v \<and> h < 2 ^ 31
      \<and> 1 / 100 \<le> speed (settings (prompt v)) \<and> speed (settings (prompt v)) \<le> 10"
  then show "\<exists>n. \<not> isPlaying (run (replicate n (AnimationFrame h)) v)"
    by (intro frames_stop) simp_all
next
  assume "\<not> isPlaying v"
  then show "scrollPos (run (replicate n (AnimationFrame h)) v) = scrollPos v"
    and "\<not> isPlaying (run (replicate n (AnimationFrame h)) v)"
    by (simp_all add: frames_stopped)
qed

theorem frame_advances_until_end_witness:
  "isPlaying (run [ChangeSpeed 1, ClickPlay 1000] (mount freshPrompt)) \<and>
   speed (settings (prompt (run [ChangeSpeed 1, ClickPlay 1000] (mount freshPrompt)))) = 1 \<and>
   scrollPos (run [ChangeSpeed 1, ClickPlay 1000] (mount freshPrompt)) = 0 \<and>
   isDouble 0 \<and> (1::int) < 2 ^ 31 \<and>
   scrollPos (step (AnimationFrame 1) (run [ChangeSpeed 1, ClickPlay 1000] (mount freshPrompt)))
     = 3602879701896397 / 36028797018963968 \<and>
   scrollPos (run [ChangeSpeed 1, ClickPlay 1000] (mount freshPrompt))
     < scrollPos (step (AnimationFrame 1)
         (run [ChangeSpeed 1, ClickPlay 1000] (mount freshPrompt))) \<and>
   isPlaying (step (AnimationFrame 1) (run [ChangeSpeed 1, ClickPlay 1000] (mount freshPrompt))) \<and>
   scrollPos (run (replicate 10 (AnimationFrame 1))
     (run [ChangeSpeed 1, ClickPlay 1000] (mount freshPrompt)))
     = 9007199254740991 / 9007199254740992 \<and>
   isPlaying (run (replicate 11 (AnimationFrame 1))
     (run [ChangeSpeed 1, ClickPlay 1000] (mount freshPrompt))) \<and>
   scrollPos (run (replicate 11 (AnimationFrame 1))
     (run [ChangeSpeed 1, ClickPlay 1000] (mount freshPrompt)))
     = 4953959590107545 / 4503599627370496 \<and>
   \<not> isPlaying (run (replicate 12 (AnimationFrame 1))
     (run [ChangeSpeed 1, ClickPlay 1000] (mount freshPrompt))) \<and>
   scrollPos (run (replicate 12 (AnimationFrame 1))
     (run [ChangeSpeed 1, ClickPlay 1000] (mount freshPrompt)))
     = 4953959590107545 / 4503599627370496"
proof -
  let ?v = "run [ChangeSpeed 1, ClickPlay 1000] (mount freshPrompt)"
  have pre: "isPlaying ?v" "speed (settings (prompt ?v)) = 1" "scrollPos ?v = 0"
    by code_simp+
  have dbl: "isDouble 0"
    by (simp add: double_eval)
  from pre have h: "isPlaying ?v \<and> scrollPos ?v < of_int 1"
    and h': "0 \<le> scrollPos ?v \<and> (1::int) < 2 ^ 31 \<and> 1 / 100 \<le> speed (settings (prompt ?v))
         \<and> speed (settings (prompt ?v)) \<le> 10"
    by simp_all
  from frame_advances_until_end [of ?v 1 0] h h'
  have "scrollPos (step (AnimationFrame 1) ?v)
      = add_double (scrollPos ?v) (div_double (speed (settings (prompt ?v))) 10)"
    and one: "isPlaying (step (AnimationFrame 1) ?v)"
      "scrollPos ?v < scrollPos (step (AnimationFrame 1) ?v)"
    by blast+
  moreover have "add_double 0 (div_double 1 10) = 3602879701896397 / 36028797018963968"
    by (simp add: double_eval)
  ultimately have first: "scrollPos (step (AnimationFrame 1) ?v)
      = 3602879701896397 / 36028797018963968"
    using pre by simp
  have ten: "offsets 1 1 10 0 = (True, 9007199254740991 / 9007199254740992)"
    by (simp add: eval_nat_numeral double_eval)
  have "offsets 1 1 11 0 = (True, 4953959590107545 / 4503599627370496)"
    by (simp add: eval_nat_numeral double_eval)
  with run_frames[OF pre(1), of 11 1] pre(2,3)
  have f11: "isPlaying (run (replicate 11 (AnimationFrame 1)) ?v)"
      "scrollPos (run (replicate 11 (AnimationFrame 1)) ?v)
        = 4953959590107545 / 4503599627370496"
    by simp_all
  have "offsets 1 1 12 0 = (False, 4953959590107545 / 4503599627370496)"
    by (simp add: eval_nat_numeral double_eval)
  with run_frames[OF pre(1), of 12 1] pre(2,3)
  have f12: "\<not> isPlaying (run (replicate 12 (AnimationFrame 1)) ?v)"
      "scrollPos (run (replicate 12 (AnimationFrame 1)) ?v)
        = 4953959590107545 / 4503599627370496"
    by simp_all
  from ten run_frames[OF pre(1), of 10 1] pre(2,3)
  have f10: "scrollPos (run (replicate 10 (AnimationFrame 1)) ?v)
      = 9007199254740991 / 9007199254740992"
    by simp
  from pre dbl one first f10 f11 f12 show ?thesis
    by simp
qed

section \<open>The history\<close>

text \<open>
  \<open>s.includes(t)\<close>: \<open>t\<close> occurs in \<open>s\<close> at some position (\<open>includes_str\<close>, as
  \<open>includes\<close> is a keyword of the theory language).
\<close>

fun includes_str :: "jsstring \<Rightarrow> jsstring \<Rightarrow> bool" where
  "includes_str [] t = (t = [])"
| "includes_str (c # cs) t = (startsWith (c # cs) t \<or> includes_str cs t)"

text \<open>
  \<open>a < b\<close> on two strings: the first code unit in which they differ decides, and a
  proper prefix is smaller.
\<close>

fun lessThan_str :: "jsstring \<Rightarrow> jsstring \<Rightarrow> bool" where
  "lessThan_str [] [] = False"
| "lessThan_str [] (y # ys) = True"
| "lessThan_str (x # xs) [] = False"
| "lessThan_str (x # xs) (y # ys) = (x < y \<or> (x = y \<and> lessThan_str xs ys))"

text \<open>
  \<open>String.prototype.toLowerCase\<close> maps every code point as the Unicode Character
  Database has it, the mappings of \<open>SpecialCasing.txt\<close> that depend on no language
  included. Modelled here are the code units of Basic Latin and the Greek letters
  from capital alpha to capital omega (\<open>U+0391\<close> to \<open>U+03A9\<close>, but the unassigned
  \<open>U+03A2\<close>) and from small alpha to small omega (\<open>U+03B1\<close> to \<open>U+03C9\<close>). Among
  them the cased letters are the letters, capital and small, and the case-ignorable
  characters are the apostrophe, the full stop, the colon, the circumflex accent and
  the grave accent.
\<close>

abbreviation capitalSigma :: "16 word" where
  "capitalSigma \<equiv> 0x03A3"

abbreviation smallSigma :: "16 word" where
  "smallSigma \<equiv> 0x03C3"

abbreviation finalSigma :: "16 word" where
  "finalSigma \<equiv> 0x03C2"

definition isCapital :: "16 word \<Rightarrow> bool" where
  "isCapital c = ((0x41 \<le> c \<and> c \<le> 0x5A) \<or> (0x0391 \<le> c \<and> c \<le> 0x03A9 \<and> c \<noteq> 0x03A2))"

definition isSmall :: "16 word \<Rightarrow> bool" where
  "isSmall c = ((0x61 \<le> c \<and> c \<le> 0x7A) \<or> (0x03B1 \<le> c \<and> c \<le> 0x03C9))"

definition isCased :: "16 word \<Rightarrow> bool" where
  "isCased c = (isCapital c \<or> isSmall c)"

definition isCaseIgnorable :: "16 word \<Rightarrow> bool" where
  "isCaseIgnorable c = (c = 0x27 \<or> c = 0x2E \<or> c = 0x3A \<or> c = 0x5E \<or> c = 0x60)"


text \<open>
  A capital letter lies 32 below its small letter; every other modelled code unit is
  its own lower case.
\<close>

definition toLower :: "16 word \<Rightarrow> 16 word" where
  "toLower c = (if isCapital c then c + 0x20 else c)"

text \<open>
  The one mapping that looks at the text around the letter: a capital sigma becomes the
  final small sigma \<open>U+03C2\<close> under the condition \<open>Final_Sigma\<close>, that is when it is
  preceded by a cased letter and then any number of case-ignorable characters, and
  not followed by any number of case-ignorable characters and then a cased letter; it
  becomes the small sigma \<open>U+03C3\<close> otherwise. \<open>casedNext\<close> looks for the cased letter
  in the text after the sigma, and in the text before it read backwards.
\<close>

fun casedNext :: "jsstring \<Rightarrow> bool" where
  "casedNext [] = False"
| "casedNext (c # cs) =
     (if isCased c then True else if isCaseIgnorable c then casedNext cs else False)"

text \<open>
  \<open>lowerFrom before s\<close> lower-cases \<open>s\<close>, where \<open>before\<close> is the text that precedes it,
  the last code unit first.
\<close>

fun lowerFrom :: "jsstring \<Rightarrow> jsstring \<Rightarrow> jsstring" where
  "lowerFrom before [] = []"
| "lowerFrom before (c # cs) =
     (if c = capitalSigma
      then (if casedNext before \<and> \<not> casedNext cs then finalSigma else smallSigma)
      else toLower c) # lowerFrom (c # before) cs"

text \<open>
  The tables for the code units that are not modelled are not reproduced: \<open>toLower\<close>
  leaves such a code unit as it is and \<open>casedNext\<close> takes it for a character without
  case, which is not what the function does for each of them. What is proved below of
  \<open>String_toLowerCase\<close> is about texts of modelled code units.
\<close>

definition String_toLowerCase :: "jsstring \<Rightarrow> jsstring" where
  "String_toLowerCase s = lowerFrom [] s"

text \<open>
  The filter of \<open>filteredAndSortedPrompts\<close>. The case mapping is a parameter of the
  query, \<open>String_toLowerCase\<close> in the application: what is proved of the sort and of
  the arrays holds whatever the mapping.
\<close>

definition matchesSearch :: "(jsstring \<Rightarrow> jsstring) \<Rightarrow> jsstring \<Rightarrow> Prompt \<Rightarrow> bool" where
  "matchesSearch toLowerCase searchTerm p =
     (includes_str (toLowerCase (title p)) (toLowerCase searchTerm) \<or>
      includes_str (toLowerCase (text p)) (toLowerCase searchTerm))"

text \<open>
  The comparison function handed to \<open>sort\<close>. \<open>greater_key k a b\<close> is
  \<open>a[sortKey] > b[sortKey]\<close>, on numbers or on strings as the key has it, and
  \<open>a[sortKey] < b[sortKey]\<close> is the same test with the operands exchanged.
\<close>

datatype SortKey = createdAt_key | title_key

datatype SortOrder = asc | desc

definition greater_key :: "SortKey \<Rightarrow> Prompt \<Rightarrow> Prompt \<Rightarrow> bool" where
  "greater_key k a b =
     (case k of createdAt_key \<Rightarrow> createdAt b < createdAt a
              | title_key \<Rightarrow> lessThan_str (title b) (title a))"

definition comparator :: "SortKey \<Rightarrow> SortOrder \<Rightarrow> Prompt \<Rightarrow> Prompt \<Rightarrow> int" where
  "comparator sortKey sortOrder a b =
     (let comparison =
            (if greater_key sortKey a b then 1
             else if greater_key sortKey b a then - 1
             else 0)
      in if sortOrder = desc then - comparison else comparison)"

text \<open>
  \<open>Array.prototype.sort\<close> with a comparison function: the sort is stable, and for a
  consistent comparison function the result is the one ordering of the elements in
  which no element comes before one it compares greater than, equal elements in their
  original order. Insertion from the right computes it.
\<close>

fun insert_cmp :: "('a \<Rightarrow> 'a \<Rightarrow> int) \<Rightarrow> 'a \<Rightarrow> 'a list \<Rightarrow> 'a list" where
  "insert_cmp cmp x [] = [x]"
| "insert_cmp cmp x (y # ys) = (if cmp x y \<le> 0 then x # y # ys else y # insert_cmp cmp x ys)"

definition sort_cmp :: "('a \<Rightarrow> 'a \<Rightarrow> int) \<Rightarrow> 'a list \<Rightarrow> 'a list" where
  "sort_cmp cmp xs = foldr (insert_cmp cmp) xs []"

text \<open>The list that \<open>filteredAndSortedPrompts\<close> holds.\<close>

definition filteredAndSortedPrompts ::
    "(jsstring \<Rightarrow> jsstring) \<Rightarrow> Prompt list \<Rightarrow> jsstring \<Rightarrow> SortKey \<Rightarrow> SortOrder \<Rightarrow> Prompt list" where
  "filteredAndSortedPrompts toLowerCase prompts searchTerm sortKey sortOrder =
     sort_cmp (comparator sortKey sortOrder) (filter (matchesSearch toLowerCase searchTerm) prompts)"

text \<open>
  The same with the arrays in a store, an array being a reference: \<open>filter\<close> allocates
  a new array, \<open>sort\<close> sorts the array it is called on in place and returns it. A
  reference is an index into the store, and a reference that a program holds is to an
  array that exists (it is below the length of the store).
\<close>

type_synonym ref = nat

type_synonym store = "Prompt list list"

definition Array_filter :: "(Prompt \<Rightarrow> bool) \<Rightarrow> ref \<Rightarrow> store \<Rightarrow> ref \<times> store" where
  "Array_filter f a st = (length st, st @ [filter f (st ! a)])"

definition Array_sort :: "(Prompt \<Rightarrow> Prompt \<Rightarrow> int) \<Rightarrow> ref \<Rightarrow> store \<Rightarrow> ref \<times> store" where
  "Array_sort cmp a st = (a, st[a := sort_cmp cmp (st ! a)])"

definition filteredAndSortedPrompts_store ::
    "(jsstring \<Rightarrow> jsstring) \<Rightarrow> ref \<Rightarrow> jsstring \<Rightarrow> SortKey \<Rightarrow> SortOrder \<Rightarrow> store \<Rightarrow> ref \<times> store" where
  "filteredAndSortedPrompts_store toLowerCase prompts searchTerm sortKey sortOrder st =
     (case Array_filter (matchesSearch toLowerCase searchTerm) prompts st of
        (filtered, st1) \<Rightarrow> Array_sort (comparator sortKey sortOrder) filtered st1)"

text \<open>
  \<^verbatim>\<open>if (window.confirm(...)) { setPromptsHistory(prev => prev.filter(p => p.id !== id)); }\<close>
  The first argument is the answer to the confirmation dialog.
\<close>

definition handleDeletePrompt :: "bool \<Rightarrow> jsstring \<Rightarrow> Prompt list \<Rightarrow> Prompt list" where
  "handleDeletePrompt confirmed i promptsHistory =
     (if confirmed then filter (\<lambda>p. id' p \<noteq> i) promptsHistory else promptsHistory)"

text \<open>\<^verbatim>\<open>setPromptsHistory(prev => [finishedPrompt, ...prev])\<close>\<close>

definition handleFinishPrompt :: "Prompt \<Rightarrow> Prompt list \<Rightarrow> Prompt list" where
  "handleFinishPrompt finishedPrompt promptsHistory = finishedPrompt # promptsHistory"

text \<open>
  What the specification asks of the order: by number for the creation time, code unit
  by code unit for the title (the lexicographic order of the library, \<open>lexord\<close>), in
  the direction chosen; and what it is for two records to tie.
\<close>

definition key_le :: "SortKey \<Rightarrow> Prompt \<Rightarrow> Prompt \<Rightarrow> bool" where
  "key_le k a b =
     (case k of
        createdAt_key \<Rightarrow> createdAt a \<le> createdAt b
      | title_key \<Rightarrow> title a = title b \<or> (title a, title b) \<in> lexord {(x, y). x < y})"

definition in_order :: "SortKey \<Rightarrow> SortOrder \<Rightarrow> Prompt \<Rightarrow> Prompt \<Rightarrow> bool" where
  "in_order k ord a b = (case ord of asc \<Rightarrow> key_le k a b | desc \<Rightarrow> key_le k b a)"

definition same_key :: "SortKey \<Rightarrow> Prompt \<Rightarrow> Prompt \<Rightarrow> bool" where
  "same_key k a b =
     (case k of createdAt_key \<Rightarrow> createdAt a = createdAt b | title_key \<Rightarrow> title a = title b)"






section \<open>Properties of the history\<close>

subsection \<open>Searching a text\<close>



subsection \<open>Lower case and the case of letters\<close>










subsection \<open>The sort is a stable sort\<close>

lemma mset_insert_cmp: "mset (insert_cmp cmp x ys) = add_mset x (mset ys)"
  by (induction ys) simp_all

lemma mset_sort_cmp: "mset (sort_cmp cmp xs) = mset xs"
  by (induction xs) (simp_all add: sort_cmp_def mset_insert_cmp)

lemma set_insert_cmp: "set (insert_cmp cmp x ys) = insert x (set ys)"
  by (induction ys) auto

lemma sorted_insert_cmp:
  assumes total: "\<And>a b. cmp a b \<le> 0 \<or> cmp b a \<le> 0"
    and trans: "\<And>a b c. cmp a b \<le> 0 \<Longrightarrow> cmp b c \<le> 0 \<Longrightarrow> cmp a c \<le> 0"
    and "sorted_wrt (\<lambda>a b. cmp a b \<le> 0) ys"
  shows "sorted_wrt (\<lambda>a b. cmp a b \<le> 0) (insert_cmp cmp x ys)"
  using assms(3)
proof (induction ys)
  case Nil
  then show ?case by simp
next
  case (Cons y ys)
  show ?case
  proof (cases "cmp x y \<le> 0")
    case True
    with Cons.prems trans show ?thesis by auto
  next
    case False
    with total have "cmp y x \<le> 0" by blast
    with False Cons show ?thesis by (auto simp: set_insert_cmp)
  qed
qed

lemma sorted_sort_cmp:
  assumes "\<And>a b. cmp a b \<le> 0 \<or> cmp b a \<le> 0"
    and "\<And>a b c. cmp a b \<le> 0 \<Longrightarrow> cmp b c \<le> 0 \<Longrightarrow> cmp a c \<le> 0"
  shows "sorted_wrt (\<lambda>a b. cmp a b \<le> 0) (sort_cmp cmp xs)"
proof (induction xs)
  case Nil
  then show ?case by (simp add: sort_cmp_def)
next
  case (Cons x xs)
  have "sort_cmp cmp (x # xs) = insert_cmp cmp x (sort_cmp cmp xs)"
    by (simp add: sort_cmp_def)
  with Cons sorted_insert_cmp[of cmp "sort_cmp cmp xs" x] assms show ?case
    by simp
qed

lemma filter_insert_cmp:
  assumes "\<And>y. P x \<Longrightarrow> P y \<Longrightarrow> cmp x y \<le> 0"
  shows "filter P (insert_cmp cmp x ys) = filter P (x # ys)"
  using assms by (induction ys) auto

lemma filter_sort_cmp:
  assumes "\<And>x y. P x \<Longrightarrow> P y \<Longrightarrow> cmp x y \<le> 0"
  shows "filter P (sort_cmp cmp xs) = filter P xs"
proof (induction xs)
  case Nil
  then show ?case by (simp add: sort_cmp_def)
next
  case (Cons x xs)
  have "filter P (sort_cmp cmp (x # xs)) = filter P (x # sort_cmp cmp xs)"
    using filter_insert_cmp[of P x cmp] assms by (simp add: sort_cmp_def)
  with Cons show ?case by simp
qed

subsection \<open>The comparison function orders by the key\<close>

lemma lessThan_str_lexord: "lessThan_str xs ys \<longleftrightarrow> (xs, ys) \<in> lexord {(x, y). x < y}"
  by (induction xs ys rule: lessThan_str.induct) simp_all

lemma lexord_less_linear:
  "(xs, ys) \<in> lexord {(x, y). x < y} \<or> xs = ys \<or> (ys, xs) \<in> lexord {(x::16 word, y). x < y}"
  by (rule lexord_linear) auto

lemma lexord_less_trans:
  "(xs, ys) \<in> lexord {(x, y). x < y} \<Longrightarrow> (ys, zs) \<in> lexord {(x, y). x < y}
   \<Longrightarrow> (xs, zs) \<in> lexord {(x::16 word, y). x < y}"
  by (rule lexord_trans) (auto simp: trans_def)

lemma lexord_less_irrefl: "(xs, xs) \<notin> lexord {(x::16 word, y). x < y}"
  by (rule lexord_irreflexive) simp

lemma greater_key_iff: "greater_key k a b \<longleftrightarrow> \<not> key_le k a b"
proof (cases k)
  case createdAt_key
  then show ?thesis by (auto simp: greater_key_def key_le_def)
next
  case title_key
  then show ?thesis
    using lexord_less_linear[of "title a" "title b"] lexord_less_irrefl[of "title a"]
      lexord_less_trans[of "title a" "title b" "title a"]
    by (auto simp: greater_key_def key_le_def lessThan_str_lexord)
qed

lemma key_le_total: "key_le k a b \<or> key_le k b a"
  using lexord_less_linear[of "title a" "title b"]
  by (cases k) (auto simp: key_le_def)

lemma key_le_trans: "key_le k a b \<Longrightarrow> key_le k b c \<Longrightarrow> key_le k a c"
  using lexord_less_trans[of "title a" "title b" "title c"]
  by (cases k) (auto simp: key_le_def)

lemma key_le_same: "same_key k a b \<Longrightarrow> key_le k a b"
  by (cases k) (auto simp: key_le_def same_key_def)

lemma comparator_le: "comparator k ord a b \<le> 0 \<longleftrightarrow> in_order k ord a b"
  using key_le_total[of k a b]
  by (cases ord) (auto simp: comparator_def in_order_def greater_key_iff Let_def)

lemma in_order_total: "in_order k ord a b \<or> in_order k ord b a"
  using key_le_total[of k a b] by (cases ord) (auto simp: in_order_def)

lemma in_order_trans: "in_order k ord a b \<Longrightarrow> in_order k ord b c \<Longrightarrow> in_order k ord a c"
  using key_le_trans[of k a b c] key_le_trans[of k c b a]
  by (cases ord) (auto simp: in_order_def)

lemma same_key_in_order:
  assumes "same_key k r a" "same_key k r b"
  shows "in_order k ord a b"
proof -
  from assms have "same_key k a b" "same_key k b a"
    by (cases k; simp add: same_key_def)+
  then show ?thesis
    by (cases ord) (simp_all add: in_order_def key_le_same)
qed

subsection \<open>The query\<close>

lemma sorted_query:
  "sorted_wrt (in_order k ord) (filteredAndSortedPrompts lower ps t k ord)"
proof -
  have "sorted_wrt (\<lambda>a b. comparator k ord a b \<le> 0)
          (sort_cmp (comparator k ord) (filter (matchesSearch lower t) ps))"
    by (rule sorted_sort_cmp)
      (use in_order_total in_order_trans in \<open>auto simp: comparator_le\<close>)
  then show ?thesis
    by (simp add: filteredAndSortedPrompts_def comparator_le)
qed

lemma stable_query:
  "filter (same_key k r) (filteredAndSortedPrompts lower ps t k ord)
     = filter (same_key k r) (filter (matchesSearch lower t) ps)"
  unfolding filteredAndSortedPrompts_def
  by (rule filter_sort_cmp) (simp add: comparator_le same_key_in_order)

lemma mset_query:
  "mset (filteredAndSortedPrompts lower ps t k ord) = mset (filter (matchesSearch lower t) ps)"
  by (simp add: filteredAndSortedPrompts_def mset_sort_cmp)

text \<open>Three records of a history, for the examples below.\<close>

definition historyRecord :: "string \<Rightarrow> string \<Rightarrow> string \<Rightarrow> int \<Rightarrow> Prompt" where
  "historyRecord i t b c =
     \<lparr>id' = js i, title = js t, text = js b, settings = DEFAULT_SETTINGS,
      startTime = Some (c + 1000), endTime = Some (c + 61000), createdAt = c\<rparr>"

definition record100 :: Prompt where
  "record100 = historyRecord ''100'' ''Intro'' ''Hello World'' 100"

definition record200 :: Prompt where
  "record200 = historyRecord ''200'' ''Outro'' ''Good bye'' 200"

definition record300 :: Prompt where
  "record300 = historyRecord ''300'' ''Agenda'' ''Three points'' 300"

text \<open>
  Claim C6. Deleting by an id that no record bears leaves the list as it is; deleting
  by the id that one record bears removes that record and leaves the others, before
  and after it, unchanged and in their order.
\<close>

theorem delete_by_id:
  "((\<forall>q \<in> set ps. id' q \<noteq> i) \<longrightarrow> handleDeletePrompt True i ps = ps) \<and>
   (id' p = i \<and> (\<forall>q \<in> set xs. id' q \<noteq> i) \<and> (\<forall>q \<in> set ys. id' q \<noteq> i) \<longrightarrow>
      handleDeletePrompt True i (xs @ p # ys) = xs @ ys)"
  by (simp add: handleDeletePrompt_def)

theorem delete_by_id_witness:
  "id' record100 \<noteq> js ''200'' \<and> id' record200 = js ''200'' \<and> id' record300 \<noteq> js ''200'' \<and>
   handleDeletePrompt True (js ''200'') [record100, record200, record300]
     = [record100, record300] \<and>
   id' record100 \<noteq> js ''999'' \<and> id' record200 \<noteq> js ''999'' \<and> id' record300 \<noteq> js ''999'' \<and>
   handleDeletePrompt True (js ''999'') [record100, record200, record300]
     = [record100, record200, record300]"
proof -
  have ids: "id' record100 \<noteq> js ''200''" "id' record200 = js ''200''"
    "id' record300 \<noteq> js ''200''" "id' record100 \<noteq> js ''999''"
    "id' record200 \<noteq> js ''999''" "id' record300 \<noteq> js ''999''"
    by code_simp+
  from ids
    delete_by_id [of "[record100, record200, record300]" "js ''999''"]
  have "handleDeletePrompt True (js ''999'') [record100, record200, record300]
     = [record100, record200, record300]"
    by simp
  moreover from ids
    delete_by_id [of _ "js ''200''" record200 "[record100]" "[record300]"]
  have "handleDeletePrompt True (js ''200'') [record100, record200, record300]
     = [record100, record300]"
    by simp
  ultimately show ?thesis
    using ids by simp
qed






lemma store_query:
  assumes "prompts < length st"
  shows "filteredAndSortedPrompts_store toLowerCase prompts t k ord st
     = (length st, st @ [filteredAndSortedPrompts toLowerCase (st ! prompts) t k ord])"
  using assms
  by (simp add: filteredAndSortedPrompts_store_def Array_filter_def Array_sort_def
      filteredAndSortedPrompts_def nth_append)

lemma two_records_by_date:
  assumes "createdAt a = 100" "createdAt b = 200"
    and "matchesSearch toLowerCase t a" "matchesSearch toLowerCase t b"
  shows "filteredAndSortedPrompts toLowerCase [a, b] t createdAt_key asc = [a, b]"
    and "filteredAndSortedPrompts toLowerCase [b, a] t createdAt_key asc = [a, b]"
    and "filteredAndSortedPrompts toLowerCase [a, b] t createdAt_key desc = [b, a]"
    and "filteredAndSortedPrompts toLowerCase [b, a] t createdAt_key desc = [b, a]"
  using assms
  by (simp_all add: filteredAndSortedPrompts_def sort_cmp_def comparator_def greater_key_def)

text \<open>
  Claim C8. The query sorts by the chosen key in the chosen direction, by number for
  the creation time and code unit by code unit for the title, records with the same
  key staying in their input order; its result is a new array, and the array of the
  persisted list, like every other array of the store, is what it was. Two records
  created at 100 and 200 come out in this order ascending by date and in the opposite
  order descending, whichever came first in the list.
\<close>

theorem query_sorts_stably_into_new_array:
  "sorted_wrt (in_order k ord) (filteredAndSortedPrompts toLowerCase ps t k ord) \<and>
   mset (filteredAndSortedPrompts toLowerCase ps t k ord)
     = mset (filter (matchesSearch toLowerCase t) ps) \<and>
   filter (same_key k r) (filteredAndSortedPrompts toLowerCase ps t k ord)
     = filter (same_key k r) (filter (matchesSearch toLowerCase t) ps) \<and>
   (prompts < length st \<longrightarrow>
      fst (filteredAndSortedPrompts_store toLowerCase prompts t k ord st) = length st \<and>
      fst (filteredAndSortedPrompts_store toLowerCase prompts t k ord st) \<noteq> prompts \<and>
      snd (filteredAndSortedPrompts_store toLowerCase prompts t k ord st)
        ! fst (filteredAndSortedPrompts_store toLowerCase prompts t k ord st)
        = filteredAndSortedPrompts toLowerCase (st ! prompts) t k ord \<and>
      take (length st) (snd (filteredAndSortedPrompts_store toLowerCase prompts t k ord st))
        = st) \<and>
   (createdAt a = 100 \<and> createdAt b = 200 \<and>
    matchesSearch toLowerCase t a \<and> matchesSearch toLowerCase t b \<longrightarrow>
      filteredAndSortedPrompts toLowerCase [a, b] t createdAt_key asc = [a, b] \<and>
      filteredAndSortedPrompts toLowerCase [b, a] t createdAt_key asc = [a, b] \<and>
      filteredAndSortedPrompts toLowerCase [a, b] t createdAt_key desc = [b, a] \<and>
      filteredAndSortedPrompts toLowerCase [b, a] t createdAt_key desc = [b, a])"
proof (intro conjI impI)
  show "sorted_wrt (in_order k ord) (filteredAndSortedPrompts toLowerCase ps t k ord)"
    by (rule sorted_query)
  show "mset (filteredAndSortedPrompts toLowerCase ps t k ord)
     = mset (filter (matchesSearch toLowerCase t) ps)"
    by (rule mset_query)
  show "filter (same_key k r) (filteredAndSortedPrompts toLowerCase ps t k ord)
     = filter (same_key k r) (filter (matchesSearch toLowerCase t) ps)"
    by (rule stable_query)
next
  assume valid: "prompts < length st"
  let ?res = "filteredAndSortedPrompts_store toLowerCase prompts t k ord st"
  show "fst ?res = length st" and "fst ?res \<noteq> prompts"
    and "take (length st) (snd ?res) = st"
    and "snd ?res ! fst ?res = filteredAndSortedPrompts toLowerCase (st ! prompts) t k ord"
    using valid by (simp_all add: store_query)
next
  assume "createdAt a = 100 \<and> createdAt b = 200 \<and>
    matchesSearch toLowerCase t a \<and> matchesSearch toLowerCase t b"
  then show "filteredAndSortedPrompts toLowerCase [a, b] t createdAt_key asc = [a, b]"
    and "filteredAndSortedPrompts toLowerCase [b, a] t createdAt_key asc = [a, b]"
    and "filteredAndSortedPrompts toLowerCase [a, b] t createdAt_key desc = [b, a]"
    and "filteredAndSortedPrompts toLowerCase [b, a] t createdAt_key desc = [b, a]"
    by (simp_all add: two_records_by_date)
qed

theorem query_sorts_stably_into_new_array_witness:
  "createdAt record100 = 100 \<and> createdAt record200 = 200 \<and>
   matchesSearch String_toLowerCase [] record100 \<and>
   matchesSearch String_toLowerCase [] record200 \<and>
   filteredAndSortedPrompts String_toLowerCase [record200, record100] []
     createdAt_key asc = [record100, record200] \<and>
   filteredAndSortedPrompts String_toLowerCase [record100, record200] []
     createdAt_key desc = [record200, record100] \<and>
   filteredAndSortedPrompts String_toLowerCase [record200, record100, record300] []
     title_key asc = [record300, record100, record200] \<and>
   (0::nat) < length [[record200, record100]] \<and>
   filteredAndSortedPrompts_store String_toLowerCase 0 [] createdAt_key asc
     [[record200, record100]]
     = (1, [[record200, record100], [record100, record200]])"
proof -
  have hyp: "createdAt record100 = 100" "createdAt record200 = 200"
    "matchesSearch String_toLowerCase [] record100"
    "matchesSearch String_toLowerCase [] record200"
    by code_simp+
  from hyp
    query_sorts_stably_into_new_array [of createdAt_key asc String_toLowerCase "[]" "[]" record100
      0 "[[record200, record100]]" record100 record200]
  have "filteredAndSortedPrompts String_toLowerCase [record200, record100] []
     createdAt_key asc = [record100, record200]"
    and "filteredAndSortedPrompts String_toLowerCase [record100, record200] []
     createdAt_key desc = [record200, record100]"
    and "fst (filteredAndSortedPrompts_store String_toLowerCase 0 [] createdAt_key asc
      [[record200, record100]]) = 1"
    and "take 1 (snd (filteredAndSortedPrompts_store String_toLowerCase 0 [] createdAt_key asc
      [[record200, record100]])) = [[record200, record100]]"
    by simp_all
  moreover have "filteredAndSortedPrompts String_toLowerCase [record200, record100, record300] []
     title_key asc = [record300, record100, record200]"
    and "filteredAndSortedPrompts_store String_toLowerCase 0 [] createdAt_key asc
     [[record200, record100]]
     = (1, [[record200, record100], [record100, record200]])"
    by code_simp+
  ultimately show ?thesis
    using hyp by simp
qed

end
